theory Spec2Isabelle
  imports Main "HOL-Library.Word"
begin

unbundle bit_operations_syntax

section \<open>Errors\<close>

text \<open>
  The C++ sources raise \<^verbatim>\<open>std::invalid_argument\<close> (zero capacity, zero buffer length),
  \<^verbatim>\<open>std::runtime_error\<close> with the message "SyncEngine non inizializzato" (start before
  initialize), \<^verbatim>\<open>std::runtime_error\<close> from the audio device layer, and \<^verbatim>\<open>CryptoError\<close>
  carrying one of six type tags. Each is a constructor here.
\<close>

datatype CryptoErrorType = Encryption | Decryption | Signature | Verification | KeyExchange | Hash

datatype error =
    InvalidArgument
  | NotInitialized
  | DeviceError
  | CryptoError CryptoErrorType

section \<open>RingBuffer (core\_audio/buffer.hpp)\<close>

text \<open>
  \<^verbatim>\<open>RingBuffer<T>\<close>: a vector of \<open>capacity\<close> elements with a write index, a read
  index and an element count. The indices are \<^verbatim>\<open>size_t\<close> values that index an allocated
  vector, so they are modelled as \<open>nat\<close>. The mutex is not modelled: every operation
  runs as one atomic step.
\<close>

record 'a RingBuffer =
  buffer :: "'a list"
  capacity :: nat
  write_pos :: nat
  read_pos :: nat
  size_rb :: nat

text \<open>\<^verbatim>\<open>memcpy(&dst[pos], src, n * sizeof(T))\<close> with \<open>n = length src\<close>.\<close>

definition memcpy_into :: "'a list \<Rightarrow> nat \<Rightarrow> 'a list \<Rightarrow> 'a list" where
  "memcpy_into dst pos src = take pos dst @ src @ drop (pos + length src) dst"

text \<open>The constructor value-initialises the vector and rejects capacity 0.\<close>

definition RingBuffer_new :: "nat \<Rightarrow> error + ('a::zero) RingBuffer" where
  "RingBuffer_new cap =
     (if cap = 0 then Inl InvalidArgument
      else Inr \<lparr>buffer = replicate cap 0, capacity = cap, write_pos = 0, read_pos = 0,
                size_rb = 0\<rparr>)"

text \<open>
  \<^verbatim>\<open>write(data, count)\<close>: \<open>data\<close> holds the \<open>count\<close> source elements the pointer refers to.
  Returns the updated buffer and the number of elements written.
\<close>

definition write_rb :: "'a RingBuffer \<Rightarrow> 'a list \<Rightarrow> nat \<Rightarrow> 'a RingBuffer \<times> nat" where
  "write_rb rb data count =
     (if count = 0 then (rb, 0)
      else
        let available = capacity rb - size_rb rb;
            to_write = min count available
        in if to_write = 0 then (rb, 0)
           else
             let first_part = min to_write (capacity rb - write_pos rb);
                 b1 = memcpy_into (buffer rb) (write_pos rb) (take first_part data);
                 b2 = (if first_part < to_write
                       then memcpy_into b1 0 (take (to_write - first_part) (drop first_part data))
                       else b1)
             in (rb\<lparr>buffer := b2,
                     write_pos := (write_pos rb + to_write) mod capacity rb,
                     size_rb := size_rb rb + to_write\<rparr>, to_write))"

text \<open>
  The elements that \<^verbatim>\<open>read\<close> and \<^verbatim>\<open>peek\<close> copy to the destination: the part from the read
  index to the end of the vector, then the part from the start of the vector.
\<close>

definition copy_out :: "'a RingBuffer \<Rightarrow> nat \<Rightarrow> 'a list" where
  "copy_out rb to_read =
     (let first_part = min to_read (capacity rb - read_pos rb)
      in take first_part (drop (read_pos rb) (buffer rb)) @
         (if first_part < to_read then take (to_read - first_part) (buffer rb) else []))"

text \<open>
  \<^verbatim>\<open>read(data, count)\<close> returns the updated buffer, the elements stored at the destination
  and their number.
\<close>

definition read_rb :: "'a RingBuffer \<Rightarrow> nat \<Rightarrow> 'a RingBuffer \<times> 'a list \<times> nat" where
  "read_rb rb count =
     (if count = 0 \<or> size_rb rb = 0 then (rb, [], 0)
      else
        let to_read = min count (size_rb rb)
        in (rb\<lparr>read_pos := (read_pos rb + to_read) mod capacity rb,
                size_rb := size_rb rb - to_read\<rparr>,
            copy_out rb to_read, to_read))"

text \<open>\<^verbatim>\<open>peek(data, count)\<close> is a const member; it uses a local copy of the read index.\<close>

definition peek_rb :: "'a RingBuffer \<Rightarrow> nat \<Rightarrow> 'a RingBuffer \<times> 'a list \<times> nat" where
  "peek_rb rb count =
     (if count = 0 \<or> size_rb rb = 0 then (rb, [], 0)
      else
        let to_read = min count (size_rb rb)
        in (rb, copy_out rb to_read, to_read))"

definition clear :: "'a RingBuffer \<Rightarrow> 'a RingBuffer" where
  "clear rb = rb\<lparr>write_pos := 0, read_pos := 0, size_rb := 0\<rparr>"

definition empty :: "'a RingBuffer \<Rightarrow> bool" where
  "empty rb = (size_rb rb = 0)"

definition available :: "'a RingBuffer \<Rightarrow> nat" where
  "available rb = capacity rb - size_rb rb"

text \<open>
  The data-model invariant of the ring: positive capacity equal to the vector's length,
  both indices inside the vector, at most \<open>capacity\<close> elements, and the write index
  \<open>size\<close> places after the read index.
\<close>

definition ring_inv :: "'a RingBuffer \<Rightarrow> bool" where
  "ring_inv rb =
     (0 < capacity rb \<and> length (buffer rb) = capacity rb \<and>
      write_pos rb < capacity rb \<and> read_pos rb < capacity rb \<and>
      size_rb rb \<le> capacity rb \<and>
      write_pos rb = (read_pos rb + size_rb rb) mod capacity rb)"

text \<open>The queued elements, oldest first.\<close>

definition contents :: "'a RingBuffer \<Rightarrow> 'a list" where
  "contents rb = copy_out rb (size_rb rb)"

subsection \<open>Sequences of ring operations\<close>

datatype 'a ring_op = Write "'a list" | Read nat | Peek nat

text \<open>
  One operation; the result is the new buffer, the number of elements the call wrote and the
  number it consumed (a peek consumes none).
\<close>

fun ring_step :: "'a ring_op \<Rightarrow> 'a RingBuffer \<Rightarrow> 'a RingBuffer \<times> nat \<times> nat" where
  "ring_step (Write data) rb = (let (rb', k) = write_rb rb data (length data) in (rb', k, 0))"
| "ring_step (Read m) rb = (let (rb', out, k) = read_rb rb m in (rb', 0, k))"
| "ring_step (Peek m) rb = (let (rb', out, k) = peek_rb rb m in (rb', 0, 0))"

text \<open>
  A sequence of operations; the result is the final buffer with the total numbers of
  elements written and read.
\<close>

fun ring_run :: "'a ring_op list \<Rightarrow> 'a RingBuffer \<Rightarrow> 'a RingBuffer \<times> nat \<times> nat" where
  "ring_run [] rb = (rb, 0, 0)"
| "ring_run (x # xs) rb =
     (let (rb1, w1, r1) = ring_step x rb;
          (rb2, w2, r2) = ring_run xs rb1
      in (rb2, w1 + w2, r1 + r2))"

text \<open>
  The same sequence, recording the elements instead of their numbers: the result is the
  final buffer, the elements accepted by the writes (for each write the leading part of its
  source that was copied in) and the elements delivered by the reads, both in call order.
\<close>

fun ring_trace :: "'a ring_op list \<Rightarrow> 'a RingBuffer \<Rightarrow> 'a RingBuffer \<times> 'a list \<times> 'a list" where
  "ring_trace [] rb = (rb, [], [])"
| "ring_trace (Write data # xs) rb =
     (let (rb1, k) = write_rb rb data (length data);
          (rb2, ws, rs) = ring_trace xs rb1
      in (rb2, take k data @ ws, rs))"
| "ring_trace (Read m # xs) rb =
     (let (rb1, out, k) = read_rb rb m;
          (rb2, ws, rs) = ring_trace xs rb1
      in (rb2, ws, out @ rs))"
| "ring_trace (Peek m # xs) rb =
     (let (rb1, out, k) = peek_rb rb m
      in ring_trace xs rb1)"

section \<open>AudioBuffer (core\_audio/buffer.hpp)\<close>

text \<open>
  A sample is a 32-bit float that is only stored and copied, never computed with; it is
  modelled by its bit pattern, and \<^verbatim>\<open>memset(.., 0, ..)\<close> produces the all-zero pattern
  (the float 0.0). \<^verbatim>\<open>uint32_t\<close>, \<^verbatim>\<open>uint8_t\<close> and \<^verbatim>\<open>uint64_t\<close> fields are words; frame
  counts passed by the caller and the sizes derived from the ring are \<open>nat\<close>.
\<close>

type_synonym sample = "32 word"

record AudioBuffer =
  sample_rate :: "32 word"
  channels :: "8 word"
  buffer_ms :: "32 word"
  samples_per_ms :: "32 word"
  buffer_size :: nat
  ring :: "sample RingBuffer"
  timestamp :: "64 word"

text \<open>
  The constructor computes \<open>samples_per_ms = sample_rate / 1000\<close> and the ring capacity
  \<open>samples_per_ms * buffer_ms * channels\<close> in 32-bit unsigned arithmetic. The ring is a
  member initialised before the constructor body runs, so a capacity of 0 is rejected by
  the ring's constructor before the parameter check of the body; both raise
  \<^verbatim>\<open>std::invalid_argument\<close>.
\<close>

definition AudioBuffer_new :: "32 word \<Rightarrow> 8 word \<Rightarrow> 32 word \<Rightarrow> error + AudioBuffer" where
  "AudioBuffer_new rate ch ms =
     (let spm = rate div 1000;
          bsize = unat (spm * ms * ucast ch)
      in case RingBuffer_new bsize of
           Inl e \<Rightarrow> Inl e
         | Inr rb \<Rightarrow>
             if rate = 0 \<or> ch = 0 \<or> ms = 0 then Inl InvalidArgument
             else Inr \<lparr>sample_rate = rate, channels = ch, buffer_ms = ms,
                       samples_per_ms = spm, buffer_size = bsize, ring = rb,
                       timestamp = 0\<rparr>)"

text \<open>
  \<^verbatim>\<open>write_samples(samples, count, timestamp)\<close>: \<open>samples\<close> holds the interleaved source
  samples. Returns the updated buffer and the number of frames written.
\<close>

definition write_samples ::
  "AudioBuffer \<Rightarrow> sample list \<Rightarrow> nat \<Rightarrow> 64 word \<Rightarrow> AudioBuffer \<times> nat" where
  "write_samples b samples count ts =
     (let ts' = (if empty (ring b) then ts else timestamp b);
          (rb', written) = write_rb (ring b) samples (count * unat (channels b))
      in (b\<lparr>ring := rb', timestamp := ts'\<rparr>, written div unat (channels b)))"

text \<open>
  \<^verbatim>\<open>time_diff = static_cast<int64_t>(current_time) - static_cast<int64_t>(timestamp_)\<close>:
  the two's-complement difference; \<open>sint\<close> reads it as the signed value.
\<close>

definition time_diff :: "64 word \<Rightarrow> 64 word \<Rightarrow> 64 word" where
  "time_diff current_time ts = current_time - ts"

text \<open>
  \<^verbatim>\<open>std::min(static_cast<size_t>(time_diff * samples_per_ms_), buffer_->size() / channels_)\<close>:
  the product is formed in 64 bits and converted to \<^verbatim>\<open>size_t\<close>.
\<close>

definition samples_to_skip :: "AudioBuffer \<Rightarrow> 64 word \<Rightarrow> nat" where
  "samples_to_skip b current_time =
     min (unat (time_diff current_time (timestamp b) * ucast (samples_per_ms b)))
         (size_rb (ring b) div unat (channels b))"

text \<open>
  \<^verbatim>\<open>read_samples(samples, count, current_time)\<close> returns the updated buffer, the samples
  stored at the destination (nothing is stored when the ring is empty) and the number of
  frames reported to the caller.
\<close>

definition read_samples ::
  "AudioBuffer \<Rightarrow> nat \<Rightarrow> 64 word \<Rightarrow> AudioBuffer \<times> sample list \<times> nat" where
  "read_samples b count current_time =
     (if empty (ring b) then (b, [], 0)
      else if sint (time_diff current_time (timestamp b)) < 0
      then (b, replicate (count * unat (channels b)) 0, count)
      else
        let skip = samples_to_skip b current_time;
            (rb1, ts1) =
              (if skip > 0
               then (fst (read_rb (ring b) (skip * unat (channels b))),
                     timestamp b + of_nat (skip div unat (samples_per_ms b)))
               else (ring b, timestamp b));
            (rb2, out, rd) = read_rb rb1 (count * unat (channels b));
            ts2 = ts1 + of_nat ((rd div unat (channels b)) div unat (samples_per_ms b))
        in (b\<lparr>ring := rb2, timestamp := ts2\<rparr>, out, rd div unat (channels b)))"

definition get_latency_ms :: "AudioBuffer \<Rightarrow> 32 word" where
  "get_latency_ms b =
     of_nat ((size_rb (ring b) div unat (channels b)) div unat (samples_per_ms b))"

text \<open>
  \<^verbatim>\<open>set_buffer_size_ms\<close> rebuilds the ring at the new capacity and moves the queued samples
  over. The members \<open>buffer_ms\<close> and \<open>buffer_size\<close> are assigned before the new ring is
  constructed, so they keep their new values when that constructor raises. The result is
  the buffer as the call leaves it and either the exception or nothing.
\<close>

definition set_buffer_size_ms :: "AudioBuffer \<Rightarrow> 32 word \<Rightarrow> AudioBuffer \<times> (error + unit)" where
  "set_buffer_size_ms b ms =
     (if ms = 0 then (b, Inl InvalidArgument)
      else
        let bsize = unat (samples_per_ms b * ms * ucast (channels b));
            b1 = b\<lparr>buffer_ms := ms, buffer_size := bsize\<rparr>
        in case RingBuffer_new bsize of
             Inl e \<Rightarrow> (b1, Inl e)
           | Inr new_buffer \<Rightarrow>
               let nb = (if \<not> empty (ring b)
                         then (let (old, temp, rd) = read_rb (ring b) (size_rb (ring b))
                               in fst (write_rb new_buffer temp rd))
                         else new_buffer)
               in (b1\<lparr>ring := nb\<rparr>, Inr ()))"




subsection \<open>Concrete buffers\<close>





text \<open>The buffer built by \<^verbatim>\<open>AudioBuffer(48000, 2, 20)\<close>: music rate, stereo, 20 ms.\<close>

definition music_buffer :: AudioBuffer where
  "music_buffer =
     \<lparr>sample_rate = 48000, channels = 2, buffer_ms = 20, samples_per_ms = 48,
      buffer_size = 1920,
      ring = \<lparr>buffer = replicate 1920 0, capacity = 1920, write_pos = 0, read_pos = 0,
              size_rb = 0\<rparr>,
      timestamp = 0\<rparr>"

section \<open>SyncManager (protocol/sync.cpp)\<close>

text \<open>
  The state behind the manager's shared pointers. \<open>timeOffset\<close> is the \<^verbatim>\<open>int64_t\<close> offset
  in two's complement (\<open>sint\<close> reads its value), \<open>lastBeacon\<close> the optional steady-clock
  reading, \<open>nodeLatencies\<close> the map from node id to \<^verbatim>\<open>uint32_t\<close> latency. The clocks are
  inputs: every operation that reads \<^verbatim>\<open>system_clock\<close> takes the reading in milliseconds
  since the epoch as \<open>currentTime\<close>, and \<open>handleTimeBeacon\<close> takes the steady-clock reading
  as well.
\<close>

record SyncManager =
  timeOffset :: "64 word"
  lastBeacon :: "nat option"
  nodeLatencies :: "string \<rightharpoonup> 32 word"
  isSynced :: bool
  maxJitterMs :: "32 word"


text \<open>
  \<^verbatim>\<open>now()\<close>: adds the offset when it is non-negative, otherwise subtracts its negation, in
  unsigned 64-bit arithmetic.
\<close>

definition now :: "SyncManager \<Rightarrow> 64 word \<Rightarrow> 64 word" where
  "now s currentTime =
     (let offset = timeOffset s
      in if 0 \<le> sint offset then currentTime + offset else currentTime - (- offset))"

text \<open>
  \<^verbatim>\<open>handleTimeBeacon(masterTime)\<close>: the offset is the difference of the two times, both
  converted to \<^verbatim>\<open>int64_t\<close>.
\<close>

definition handleTimeBeacon ::
  "SyncManager \<Rightarrow> 64 word \<Rightarrow> nat \<Rightarrow> 64 word \<Rightarrow> SyncManager \<times> bool" where
  "handleTimeBeacon s currentTime steadyNow masterTime =
     (let calculatedOffset = masterTime - currentTime
      in (s\<lparr>timeOffset := calculatedOffset, lastBeacon := Some steadyNow, isSynced := True\<rparr>,
          True))"


definition updateNodeLatency :: "SyncManager \<Rightarrow> string \<Rightarrow> 32 word \<Rightarrow> SyncManager" where
  "updateNodeLatency s nodeId latency = s\<lparr>nodeLatencies := (nodeLatencies s)(nodeId \<mapsto> latency)\<rparr>"

definition isNodeOutOfSync :: "SyncManager \<Rightarrow> 64 word \<Rightarrow> string \<Rightarrow> 64 word \<Rightarrow> bool" where
  "isNodeOutOfSync s wallTime nodeId reportedTime =
     (let currentTime = now s wallTime;
          timeDiff = (if currentTime > reportedTime then currentTime - reportedTime
                      else reportedTime - currentTime)
      in timeDiff > ucast (maxJitterMs s))"

text \<open>
  \<^verbatim>\<open>calculateBufferAdjustment(nodeLatency)\<close>: the sum is formed in \<^verbatim>\<open>uint32_t\<close>, where it
  wraps around, and capped by \<^verbatim>\<open>std::min(bufferSize, 40u)\<close>.
\<close>

definition calculateBufferAdjustment :: "32 word \<Rightarrow> 32 word" where
  "calculateBufferAdjustment nodeLatency =
     (let bufferSize = nodeLatency + 10
      in min bufferSize 40)"

definition emergencySync ::
  "SyncManager \<Rightarrow> 64 word \<Rightarrow> nat \<Rightarrow> 64 word \<Rightarrow> SyncManager \<times> bool" where
  "emergencySync s currentTime steadyNow masterTime =
     (let (s', result) = handleTimeBeacon s currentTime steadyNow masterTime
      in (s'\<lparr>nodeLatencies := Map.empty\<rparr>, result))"

section \<open>AudioStream (core\_audio/audio\_stream.cpp)\<close>

text \<open>
  The audio device library is outside the repository. The results of its calls are inputs
  of the model: whether initialisation succeeds, whether a default output device exists,
  and whether opening, starting and stopping the stream succeed.
\<close>

record PortAudio =
  pa_initialize_ok :: bool
  pa_has_output_device :: bool
  pa_open_ok :: bool
  pa_start_ok :: bool
  pa_stop_ok :: bool

text \<open>
  The stream object: \<open>stream_open\<close> stands for \<^verbatim>\<open>stream_ != nullptr\<close>, \<open>callback_active\<close> for
  the flag \<^verbatim>\<open>callback_data_->is_active\<close> read by the device callback. The time provider
  handed to the constructor is used by the device callback only, which the device library
  calls from its own thread; neither is part of the model.
\<close>

record AudioStream =
  stream_sample_rate :: "32 word"
  stream_channels :: "8 word"
  stream_buffer :: AudioBuffer
  stream_open :: bool
  stream_is_initialized :: bool
  callback_active :: bool

text \<open>
  The constructor builds the audio buffer (which may raise \<^verbatim>\<open>std::invalid_argument\<close>) and
  runs \<^verbatim>\<open>initAudio\<close>, which raises \<^verbatim>\<open>std::runtime_error\<close> when the device library
  cannot be initialised, has no output device or cannot open the stream.
\<close>

definition AudioStream_new ::
  "PortAudio \<Rightarrow> 32 word \<Rightarrow> 8 word \<Rightarrow> 32 word \<Rightarrow> error + AudioStream" where
  "AudioStream_new pa rate ch ms =
     (case AudioBuffer_new rate ch ms of
        Inl e \<Rightarrow> Inl e
      | Inr b \<Rightarrow>
          if \<not> pa_initialize_ok pa then Inl DeviceError
          else if \<not> pa_has_output_device pa then Inl DeviceError
          else if \<not> pa_open_ok pa then Inl DeviceError
          else Inr \<lparr>stream_sample_rate = rate, stream_channels = ch, stream_buffer = b,
                    stream_open = True, stream_is_initialized = True,
                    callback_active = False\<rparr>)"

text \<open>
  A member function that may raise returns the object as the call leaves it together with
  either the exception or the returned value.
\<close>

definition startStream :: "AudioStream \<Rightarrow> PortAudio \<Rightarrow> AudioStream \<times> (error + unit)" where
  "startStream st pa =
     (if \<not> stream_open st then (st, Inr ())
      else if \<not> pa_start_ok pa then (st, Inl DeviceError)
      else (st\<lparr>callback_active := True\<rparr>, Inr ()))"

text \<open>\<^verbatim>\<open>stopStream\<close> only logs a failure of the device library.\<close>

definition stopStream :: "AudioStream \<Rightarrow> PortAudio \<Rightarrow> AudioStream" where
  "stopStream st pa =
     (if \<not> stream_open st then st else st\<lparr>callback_active := False\<rparr>)"

definition writeAudio ::
  "AudioStream \<Rightarrow> sample list \<Rightarrow> nat \<Rightarrow> 64 word \<Rightarrow> AudioStream \<times> nat" where
  "writeAudio st data frames ts =
     (let (b, n) = write_samples (stream_buffer st) data frames ts
      in (st\<lparr>stream_buffer := b\<rparr>, n))"

definition setBufferSize :: "AudioStream \<Rightarrow> 32 word \<Rightarrow> AudioStream \<times> (error + unit)" where
  "setBufferSize st ms =
     (let (b, r) = set_buffer_size_ms (stream_buffer st) ms
      in (st\<lparr>stream_buffer := b\<rparr>, r))"

section \<open>SyncEngine (core\_audio/sync\_engine.cpp)\<close>

text \<open>
  \<open>audio_stream\<close> is the \<^verbatim>\<open>unique_ptr\<close> that is null until \<^verbatim>\<open>initialize\<close> has built the
  stream; \<open>time_provider\<close> is the optional callback; \<open>start_time\<close> is the steady-clock
  reading taken by the constructor.
\<close>

record SyncEngine =
  engine_sample_rate :: "32 word"
  engine_channels :: "8 word"
  start_time :: nat
  time_offset :: "64 word"
  is_active :: bool
  is_synchronized :: bool
  time_provider :: "(unit \<Rightarrow> 64 word) option"
  audio_stream :: "AudioStream option"

text \<open>The constructor does not use its \<open>initial_buffer_ms\<close> argument.\<close>

definition SyncEngine_new :: "32 word \<Rightarrow> 8 word \<Rightarrow> 32 word \<Rightarrow> nat \<Rightarrow> SyncEngine" where
  "SyncEngine_new rate ch initial_buffer_ms steady_now =
     \<lparr>engine_sample_rate = rate, engine_channels = ch, start_time = steady_now,
      time_offset = 0, is_active = False, is_synchronized = False, time_provider = None,
      audio_stream = None\<rparr>"

text \<open>
  \<^verbatim>\<open>initialize\<close> stores the callback and then builds the stream with a 20 ms buffer; when
  the stream's constructor raises, the callback stays stored and the stream stays null.
\<close>

definition initialize ::
  "SyncEngine \<Rightarrow> PortAudio \<Rightarrow> (unit \<Rightarrow> 64 word) \<Rightarrow> SyncEngine \<times> (error + unit)" where
  "initialize e pa tp =
     (let e1 = e\<lparr>time_provider := Some tp\<rparr>
      in case AudioStream_new pa (engine_sample_rate e) (engine_channels e) 20 of
           Inl err \<Rightarrow> (e1, Inl err)
         | Inr st \<Rightarrow> (e1\<lparr>audio_stream := Some st\<rparr>, Inr ()))"

text \<open>
  \<^verbatim>\<open>start(optimal_buffer_ms)\<close>: raises \<^verbatim>\<open>std::runtime_error("SyncEngine non inizializzato")\<close>
  when the stream is null; otherwise resizes the buffer, waits, starts the stream and sets
  the active flag. The wait is not modelled.
\<close>

definition start :: "SyncEngine \<Rightarrow> PortAudio \<Rightarrow> 32 word \<Rightarrow> SyncEngine \<times> (error + unit)" where
  "start e pa optimal_buffer_ms =
     (case audio_stream e of
        None \<Rightarrow> (e, Inl NotInitialized)
      | Some st \<Rightarrow>
          (case setBufferSize st optimal_buffer_ms of
             (st1, Inl err) \<Rightarrow> (e\<lparr>audio_stream := Some st1\<rparr>, Inl err)
           | (st1, Inr u) \<Rightarrow>
               (case startStream st1 pa of
                  (st2, Inl err) \<Rightarrow> (e\<lparr>audio_stream := Some st2\<rparr>, Inl err)
                | (st2, Inr v) \<Rightarrow> (e\<lparr>audio_stream := Some st2, is_active := True\<rparr>, Inr ()))))"

definition stop :: "SyncEngine \<Rightarrow> PortAudio \<Rightarrow> SyncEngine" where
  "stop e pa =
     (case audio_stream e of
        None \<Rightarrow> e
      | Some st \<Rightarrow>
          if is_active e then e\<lparr>audio_stream := Some (stopStream st pa), is_active := False\<rparr>
          else e)"

definition updateSyncState :: "SyncEngine \<Rightarrow> bool \<Rightarrow> 64 word \<Rightarrow> SyncEngine" where
  "updateSyncState e is_synced offset = e\<lparr>is_synchronized := is_synced, time_offset := offset\<rparr>"

text \<open>
  \<^verbatim>\<open>writeAudioData(data, frames, source_timestamp)\<close>: returns 0 when the stream is null,
  otherwise forwards to the stream. It has no \<^verbatim>\<open>throw\<close>; its result is given the same
  shape as that of \<open>start\<close> so that the two can be compared.
\<close>

definition writeAudioData ::
  "SyncEngine \<Rightarrow> sample list \<Rightarrow> nat \<Rightarrow> 64 word \<Rightarrow> SyncEngine \<times> (error + nat)" where
  "writeAudioData e data frames source_timestamp =
     (case audio_stream e of
        None \<Rightarrow> (e, Inr 0)
      | Some st \<Rightarrow>
          (let (st1, n) = writeAudio st data frames source_timestamp
           in (e\<lparr>audio_stream := Some st1\<rparr>, Inr n)))"

text \<open>The working device library: every call succeeds.\<close>

definition working_device :: PortAudio where
  "working_device =
     \<lparr>pa_initialize_ok = True, pa_has_output_device = True, pa_open_ok = True,
      pa_start_ok = True, pa_stop_ok = True\<rparr>"

section \<open>Mesh network (protocol/mesh.cpp)\<close>

datatype NodeRole = Master | Repeater | Sink

text \<open>A node; \<open>lastPing\<close> is the optional steady-clock reading of the last ping.\<close>

record Node =
  node_id :: string
  role :: NodeRole
  lastPing :: "nat option"
  latency :: "32 word"
  bufferState :: "8 word"

definition Node_new :: "string \<Rightarrow> NodeRole \<Rightarrow> Node" where
  "Node_new i r = \<lparr>node_id = i, role = r, lastPing = None, latency = 0, bufferState = 100\<rparr>"

definition updatePing :: "Node \<Rightarrow> nat \<Rightarrow> Node" where
  "updatePing n steady_now = n\<lparr>lastPing := Some steady_now\<rparr>"

definition updateBufferState :: "Node \<Rightarrow> 8 word \<Rightarrow> Node" where
  "updateBufferState n state = n\<lparr>bufferState := state\<rparr>"

definition setLatency :: "Node \<Rightarrow> 32 word \<Rightarrow> Node" where
  "setLatency n l = n\<lparr>latency := l\<rparr>"

text \<open>The tagged union of the five packet kinds.\<close>

datatype MeshPacket =
    Ping string "64 word"
  | Command string "(string \<times> string) list"
  | Status string "8 word" "32 word"
  | TimeBeacon "64 word"
  | EmergencySync "64 word" "string list"

text \<open>
  The registered handler is a \<^verbatim>\<open>std::function<void(const MeshPacket&)>\<close>. It acts on state
  of its own, of type \<open>'h\<close>, and either returns or throws; an exception is represented by
  its message.
\<close>

type_synonym 'h PacketHandler = "MeshPacket \<Rightarrow> 'h \<Rightarrow> string + 'h"

text \<open>
  The network object. Each queued packet is paired with the steady-clock reading of the
  moment at which the worker will process it, the model's input for the clock read by
  \<open>updatePing\<close>.
\<close>

record 'h MeshNetwork =
  localNode :: Node
  nodes :: "string \<rightharpoonup> Node"
  running :: bool
  packetQueue :: "(nat \<times> MeshPacket) list"
  packetHandler :: "'h PacketHandler option"

definition MeshNetwork_new :: "Node \<Rightarrow> 'h MeshNetwork" where
  "MeshNetwork_new ln =
     \<lparr>localNode = ln, nodes = [node_id ln \<mapsto> ln], running = False, packetQueue = [],
      packetHandler = None\<rparr>"

definition sendPacket :: "'h MeshNetwork \<Rightarrow> nat \<times> MeshPacket \<Rightarrow> 'h MeshNetwork" where
  "sendPacket net p = net\<lparr>packetQueue := packetQueue net @ [p]\<rparr>"

definition registerNode :: "'h MeshNetwork \<Rightarrow> string \<Rightarrow> NodeRole \<Rightarrow> 'h MeshNetwork" where
  "registerNode net i r =
     (if nodes net i = None then net\<lparr>nodes := (nodes net)(i \<mapsto> Node_new i r)\<rparr> else net)"

definition setPacketHandler :: "'h MeshNetwork \<Rightarrow> 'h PacketHandler \<Rightarrow> 'h MeshNetwork" where
  "setPacketHandler net h = net\<lparr>packetHandler := Some h\<rparr>"

text \<open>
  What a call made by the worker thread can come to: it returns, it leaves by an
  exception, or it blocks. \<open>Blocked\<close> is the attempt to lock \<^verbatim>\<open>networkMutex\<close>, a
  non-recursive \<^verbatim>\<open>std::mutex\<close>, by the thread that already holds it. Each outcome carries
  the network and the handler's state as the call leaves them.
\<close>

datatype 'h outcome =
    Done "'h MeshNetwork" 'h
  | Threw "'h MeshNetwork" 'h string
  | Blocked "'h MeshNetwork" 'h

text \<open>
  \<^verbatim>\<open>updateNodeStatus\<close> locks \<^verbatim>\<open>networkMutex\<close>; \<open>mutex_held\<close> tells whether the calling thread
  holds that mutex already.
\<close>

definition updateNodeStatus ::
  "'h MeshNetwork \<Rightarrow> bool \<Rightarrow> string \<Rightarrow> 8 word \<Rightarrow> 32 word \<Rightarrow> nat \<Rightarrow> 'h MeshNetwork option" where
  "updateNodeStatus net mutex_held nodeId state l steady_now =
     (if mutex_held then None
      else case nodes net nodeId of
             None \<Rightarrow> Some net
           | Some n \<Rightarrow>
               Some (net\<lparr>nodes := (nodes net)(nodeId \<mapsto>
                       updatePing (setLatency (updateBufferState n state) l) steady_now)\<rparr>))"

text \<open>
  The \<^verbatim>\<open>switch\<close> of \<^verbatim>\<open>processPacket\<close>, executed while the function holds
  \<^verbatim>\<open>networkMutex\<close>: a ping refreshes the sender's entry if the sender is known; a status
  packet calls \<^verbatim>\<open>updateNodeStatus\<close>, which locks the same mutex again; the other kinds
  change nothing. The result is \<open>None\<close> when the thread blocks.
\<close>

definition applyPacket :: "'h MeshNetwork \<Rightarrow> nat \<Rightarrow> MeshPacket \<Rightarrow> 'h MeshNetwork option" where
  "applyPacket net steady_now packet =
     (case packet of
        Ping source ts \<Rightarrow>
          (case nodes net source of
             None \<Rightarrow> Some net
           | Some n \<Rightarrow> Some (net\<lparr>nodes := (nodes net)(source \<mapsto> updatePing n steady_now)\<rparr>))
      | Status nodeId buf l \<Rightarrow> updateNodeStatus net True nodeId buf l steady_now
      | _ \<Rightarrow> Some net)"

text \<open>
  The last step of \<^verbatim>\<open>processPacket\<close>: the packet is handed to the registered handler, if
  there is one. The call is not inside any \<^verbatim>\<open>try\<close> block.
\<close>

definition forward :: "'h MeshNetwork \<Rightarrow> 'h \<Rightarrow> MeshPacket \<Rightarrow> 'h outcome" where
  "forward net hs packet =
     (case packetHandler net of
        None \<Rightarrow> Done net hs
      | Some h \<Rightarrow> (case h packet hs of Inl msg \<Rightarrow> Threw net hs msg | Inr hs' \<Rightarrow> Done net hs'))"

definition processPacket :: "'h MeshNetwork \<Rightarrow> 'h \<Rightarrow> nat \<Rightarrow> MeshPacket \<Rightarrow> 'h outcome" where
  "processPacket net hs steady_now packet =
     (case applyPacket net steady_now packet of
        None \<Rightarrow> Blocked net hs
      | Some net' \<Rightarrow> forward net' hs packet)"

text \<open>
  The loop \<^verbatim>\<open>for (const auto& packet : packetsToProcess) processPacket(packet)\<close> of
  \<^verbatim>\<open>runNetworkLoop\<close>, which has no \<^verbatim>\<open>try\<close> block either: the first call that does not
  return ends it.
\<close>

fun processBatch :: "'h MeshNetwork \<Rightarrow> 'h \<Rightarrow> (nat \<times> MeshPacket) list \<Rightarrow> 'h outcome" where
  "processBatch net hs [] = Done net hs"
| "processBatch net hs ((steady_now, packet) # rest) =
     (case processPacket net hs steady_now packet of
        Done net' hs' \<Rightarrow> processBatch net' hs' rest
      | Threw net' hs' msg \<Rightarrow> Threw net' hs' msg
      | Blocked net' hs' \<Rightarrow> Blocked net' hs')"

text \<open>
  The worker thread runs \<^verbatim>\<open>runNetworkLoop\<close> beside the threads that enqueue packets and
  request the stop. Their actions are the input of the model: for each wake-up of the
  worker, either the stop has been requested or some packets, possibly none, have arrived
  since the last wake-up.
\<close>

datatype wake = StopRequested | Arrived "(nat \<times> MeshPacket) list"

text \<open>
  How the worker stands when the given wake-ups are used up: still waiting on the queue,
  exited by the \<open>running\<close> flag, terminated by an exception that left the thread function,
  or blocked.
\<close>

datatype 'h worker =
    Waiting "'h MeshNetwork" 'h
  | Exited "'h MeshNetwork" 'h
  | Terminated "'h MeshNetwork" 'h string
  | Stuck "'h MeshNetwork" 'h

fun runNetworkLoop :: "'h MeshNetwork \<Rightarrow> 'h \<Rightarrow> wake list \<Rightarrow> 'h worker" where
  "runNetworkLoop net hs [] = (if running net then Waiting net hs else Exited net hs)"
| "runNetworkLoop net hs (w # ws) =
     (if \<not> running net then Exited net hs
      else case w of
             StopRequested \<Rightarrow> Exited (net\<lparr>running := False\<rparr>) hs
           | Arrived ps \<Rightarrow>
               (let packetsToProcess = packetQueue net @ ps;
                    net1 = net\<lparr>packetQueue := []\<rparr>
                in case processBatch net1 hs packetsToProcess of
                     Done net2 hs2 \<Rightarrow> runNetworkLoop net2 hs2 ws
                   | Threw net2 hs2 msg \<Rightarrow> Terminated net2 hs2 msg
                   | Blocked net2 hs2 \<Rightarrow> Stuck net2 hs2))"

subsection \<open>A concrete handler\<close>

text \<open>
  A handler that keeps the list of the packets it has handled and throws on every time
  beacon whose master time is 0.
\<close>

definition logging_handler :: "MeshPacket list PacketHandler" where
  "logging_handler packet seen =
     (case packet of
        TimeBeacon t \<Rightarrow> if t = 0 then Inl ''bad beacon'' else Inr (seen @ [packet])
      | _ \<Rightarrow> Inr (seen @ [packet]))"

definition demo_network :: "MeshPacket list MeshNetwork" where
  "demo_network =
     (setPacketHandler (MeshNetwork_new (Node_new ''n1'' Sink)) logging_handler)\<lparr>running := True\<rparr>"

section \<open>MeshCrypto (protocol/crypto.cpp)\<close>

text \<open>
  Byte vectors are lists of 8-bit words; a node id, a \<^verbatim>\<open>std::string\<close>, is the sequence of
  its bytes. \<^verbatim>\<open>memcpy\<close> between a \<^verbatim>\<open>uint64_t\<close> and a byte array follows the byte order of
  the host; the model takes the little-endian order of the wire format.
\<close>

type_synonym bytes = "8 word list"

definition le_bytes64 :: "64 word \<Rightarrow> bytes" where
  "le_bytes64 w = map (\<lambda>i. ucast (drop_bit (8 * i) w)) [0 ..< 8]"

definition le_word64 :: "bytes \<Rightarrow> 64 word" where
  "le_word64 bs = foldr (\<lambda>b acc. ucast b OR push_bit 8 acc) (take 8 bs) 0"

text \<open>
  AES-256-GCM and Ed25519 come from external libraries. Their functions are parameters of
  the model: authenticated encryption yields a ciphertext and a tag or fails, decryption
  yields the plaintext or fails (also when the tag does not verify), signing yields a
  signature or fails, and signature verification answers yes or no.
\<close>

record Primitives =
  aead_encrypt :: "bytes \<Rightarrow> bytes \<Rightarrow> bytes \<Rightarrow> (bytes \<times> bytes) option"
  aead_decrypt :: "bytes \<Rightarrow> bytes \<Rightarrow> bytes \<Rightarrow> bytes \<Rightarrow> bytes option"
  sign_detached :: "bytes \<Rightarrow> bytes \<Rightarrow> bytes option"
  sign_verify_detached :: "bytes \<Rightarrow> bytes \<Rightarrow> bytes \<Rightarrow> bool"

record MeshCrypto =
  networkKey :: bytes
  signing_publicKey :: bytes
  signing_secretKey :: bytes
  knownPublicKeys :: "bytes \<rightharpoonup> bytes"
  nonceCounter :: "64 word"

text \<open>
  \<^verbatim>\<open>generateNonce\<close>: the counter is incremented first; the nonce is the 8 bytes of the
  clock reading followed by the first 4 bytes of the 8-byte counter. The clock reading
  \<open>clock_ms\<close> is an input.
\<close>

definition generateNonce :: "MeshCrypto \<Rightarrow> 64 word \<Rightarrow> MeshCrypto \<times> bytes" where
  "generateNonce c clock_ms =
     (let c1 = c\<lparr>nonceCounter := nonceCounter c + 1\<rparr>
      in (c1, le_bytes64 clock_ms @ take 4 (le_bytes64 (nonceCounter c1))))"

text \<open>The nonces returned by successive calls made at the given clock readings.\<close>

fun generateNonces :: "MeshCrypto \<Rightarrow> 64 word list \<Rightarrow> bytes list" where
  "generateNonces c [] = []"
| "generateNonces c (t # ts) =
     (let (c1, nonce) = generateNonce c t in nonce # generateNonces c1 ts)"

text \<open>
  \<^verbatim>\<open>encrypt\<close>: nonce, ciphertext and tag, concatenated. The counter stays incremented when
  the encryption fails.
\<close>

definition encrypt ::
  "Primitives \<Rightarrow> MeshCrypto \<Rightarrow> 64 word \<Rightarrow> bytes \<Rightarrow> MeshCrypto \<times> (error + bytes)" where
  "encrypt P c nonce_time payload =
     (let (c1, nonce) = generateNonce c nonce_time
      in case aead_encrypt P (networkKey c1) nonce payload of
           None \<Rightarrow> (c1, Inl (CryptoError Encryption))
         | Some (ciphertext, tag) \<Rightarrow> (c1, Inr (nonce @ ciphertext @ tag)))"

definition decrypt :: "Primitives \<Rightarrow> MeshCrypto \<Rightarrow> bytes \<Rightarrow> error + bytes" where
  "decrypt P c encryptedData =
     (if length encryptedData < 12 + 16 then Inl (CryptoError Decryption)
      else
        let nonce = take 12 encryptedData;
            tag = drop (length encryptedData - 16) encryptedData;
            ciphertext = take (length encryptedData - 16 - 12) (drop 12 encryptedData)
        in case aead_decrypt P (networkKey c) nonce ciphertext tag of
             None \<Rightarrow> Inl (CryptoError Decryption)
           | Some plaintext \<Rightarrow> Inr plaintext)"

definition sign :: "Primitives \<Rightarrow> MeshCrypto \<Rightarrow> bytes \<Rightarrow> error + bytes" where
  "sign P c message =
     (case sign_detached P (signing_secretKey c) message of
        None \<Rightarrow> Inl (CryptoError Signature)
      | Some signature \<Rightarrow> Inr signature)"

definition verify :: "Primitives \<Rightarrow> MeshCrypto \<Rightarrow> bytes \<Rightarrow> bytes \<Rightarrow> bytes \<Rightarrow> error + bool" where
  "verify P c nodeId message signature =
     (case knownPublicKeys c nodeId of
        None \<Rightarrow> Inl (CryptoError Verification)
      | Some publicKey \<Rightarrow>
          if length publicKey \<noteq> 32 then Inl (CryptoError Verification)
          else if length signature \<noteq> 64 then Inl (CryptoError Verification)
          else Inr (sign_verify_detached P signature message publicKey))"

definition registerNodeKey :: "MeshCrypto \<Rightarrow> bytes \<Rightarrow> bytes \<Rightarrow> MeshCrypto" where
  "registerNodeKey c nodeId publicKey =
     c\<lparr>knownPublicKeys := (knownPublicKeys c)(nodeId \<mapsto> publicKey)\<rparr>"

text \<open>
  \<^verbatim>\<open>generateSecurityToken\<close>: node id, timestamp and expiry, signed, then encrypted. The
  clock is read once for the timestamp (\<open>current\<close>) and once more inside the nonce
  generation (\<open>nonce_time\<close>). The expiry is computed in \<^verbatim>\<open>uint64_t\<close>.
\<close>

definition generateSecurityToken ::
  "Primitives \<Rightarrow> MeshCrypto \<Rightarrow> 64 word \<Rightarrow> 64 word \<Rightarrow> bytes \<Rightarrow> 64 word
   \<Rightarrow> MeshCrypto \<times> (error + bytes)" where
  "generateSecurityToken P c current nonce_time nodeId ttlSeconds =
     (let issued = current;
          expiry = issued + ttlSeconds * 1000;
          tokenData = nodeId @ le_bytes64 issued @ le_bytes64 expiry
      in case sign P c tokenData of
           Inl e \<Rightarrow> (c, Inl e)
         | Inr signature \<Rightarrow> encrypt P c nonce_time (tokenData @ signature))"

text \<open>
  \<^verbatim>\<open>verifySecurityToken\<close>: decrypts, splits off the 64-byte signature, reads the node id
  and the expiry, rejects the token when the clock reading is greater than the expiry, and
  checks the signature against the key registered for the node id.
\<close>

definition verifySecurityToken ::
  "Primitives \<Rightarrow> MeshCrypto \<Rightarrow> 64 word \<Rightarrow> bytes \<Rightarrow> error + (bytes \<times> 64 word)" where
  "verifySecurityToken P c current token =
     (case decrypt P c token of
        Inl e \<Rightarrow> Inl e
      | Inr decrypted \<Rightarrow>
          if length decrypted < 8 + 8 + 64 then Inl (CryptoError Verification)
          else
            let signature = drop (length decrypted - 64) decrypted;
                data = take (length decrypted - 64) decrypted;
                nodeIdSize = length data - 16;
                nodeId = take nodeIdSize data;
                expiry = le_word64 (take 8 (drop (nodeIdSize + 8) data))
            in if current > expiry then Inl (CryptoError Verification)
               else case verify P c nodeId data signature of
                      Inl e \<Rightarrow> Inl e
                    | Inr ok \<Rightarrow>
                        if \<not> ok then Inl (CryptoError Verification)
                        else Inr (nodeId, expiry))"

text \<open>
  What the libraries guarantee and the theorems about tokens assume: a ciphertext made
  under a key decrypts under the same key and nonce to its plaintext, with a 16-byte tag;
  a signature made with the secret key \<open>sk\<close> has 64 bytes and verifies under the public key
  \<open>pk\<close> of the same pair.
\<close>

definition aead_correct :: "Primitives \<Rightarrow> bool" where
  "aead_correct P =
     (\<forall>key nonce plaintext ciphertext tag.
        aead_encrypt P key nonce plaintext = Some (ciphertext, tag) \<longrightarrow>
          length tag = 16 \<and> aead_decrypt P key nonce ciphertext tag = Some plaintext)"

definition signature_correct :: "Primitives \<Rightarrow> bytes \<Rightarrow> bytes \<Rightarrow> bool" where
  "signature_correct P sk pk =
     (\<forall>message signature.
        sign_detached P sk message = Some signature \<longrightarrow>
          length signature = 64 \<and> sign_verify_detached P signature message pk)"

subsection \<open>Stand-ins for the libraries\<close>

text \<open>
  Functions with the interface of the libraries, used only to run the model on concrete
  inputs: the cipher is the identity with a tag derived from the key, and a signature is
  derived from the key alone. A key pair of this scheme has equal halves.
\<close>

definition toy_tag :: "bytes \<Rightarrow> bytes" where
  "toy_tag key = take 16 (key @ replicate 16 0)"

definition toy_signature :: "bytes \<Rightarrow> bytes" where
  "toy_signature key = take 64 (key @ replicate 64 0)"

definition toy_primitives :: Primitives where
  "toy_primitives =
     \<lparr>aead_encrypt = (\<lambda>key nonce plaintext. Some (plaintext, toy_tag key)),
      aead_decrypt = (\<lambda>key nonce ciphertext tag.
                        if tag = toy_tag key then Some ciphertext else None),
      sign_detached = (\<lambda>sk message. Some (toy_signature sk)),
      sign_verify_detached = (\<lambda>signature message pk. signature = toy_signature pk)\<rparr>"

text \<open>An instance with short keys of the stand-in scheme that knows its own node id 1.\<close>

definition toy_crypto :: MeshCrypto where
  "toy_crypto =
     \<lparr>networkKey = [9], signing_publicKey = replicate 32 5, signing_secretKey = replicate 32 5,
      knownPublicKeys = [[1] \<mapsto> replicate 32 5], nonceCounter = 0\<rparr>"

text \<open>
  The token that \<open>toy_crypto\<close> generates for node id 1 with a lifetime of one second at the
  clock reading 1000: the nonce (clock reading 1000, counter 1), the payload (node id,
  timestamp 1000, expiry 2000, signature) and the tag.
\<close>

definition demo_payload :: bytes where
  "demo_payload =
     [1] @ [232, 3, 0, 0, 0, 0, 0, 0] @ [208, 7, 0, 0, 0, 0, 0, 0] @
     (replicate 32 5 @ replicate 32 0)"

definition demo_token :: bytes where
  "demo_token =
     [232, 3, 0, 0, 0, 0, 0, 0, 1, 0, 0, 0] @ demo_payload @ ([9] @ replicate 15 0)"

section \<open>Properties of the ring buffer\<close>

lemma ring_inv_new: "RingBuffer_new cap = Inr rb \<Longrightarrow> ring_inv rb"
  by (auto simp: RingBuffer_new_def ring_inv_def split: if_splits)

lemma write_count: "snd (write_rb rb data n) = min n (capacity rb - size_rb rb)"
  by (simp add: write_rb_def Let_def)

lemma read_count: "snd (snd (read_rb rb m)) = min m (size_rb rb)"
  by (simp add: read_rb_def Let_def)

lemma peek_state: "fst (peek_rb rb k) = rb"
  by (simp add: peek_rb_def Let_def)

lemma length_memcpy_into:
  "pos + length src \<le> length dst \<Longrightarrow> length (memcpy_into dst pos src) = length dst"
  by (simp add: memcpy_into_def)

lemma write_size: "size_rb (fst (write_rb rb data n)) = size_rb rb + snd (write_rb rb data n)"
  by (simp add: write_rb_def Let_def)

lemma write_capacity: "capacity (fst (write_rb rb data n)) = capacity rb"
  by (simp add: write_rb_def Let_def)

lemma read_size:
  "size_rb (fst (read_rb rb m)) + snd (snd (read_rb rb m)) = size_rb rb"
  by (simp add: read_rb_def Let_def)

lemma read_capacity: "capacity (fst (read_rb rb m)) = capacity rb"
  by (simp add: read_rb_def Let_def)

lemma length_copy_out:
  assumes "ring_inv rb" and "k \<le> size_rb rb"
  shows "length (copy_out rb k) = k"
  using assms by (auto simp: copy_out_def Let_def ring_inv_def)

lemma write_inv: "ring_inv rb \<Longrightarrow> ring_inv (fst (write_rb rb data n))"
proof -
  assume inv: "ring_inv rb"
  define k where "k = min n (capacity rb - size_rb rb)"
  show ?thesis
  proof (cases "n = 0 \<or> k = 0")
    case True
    with inv show ?thesis by (auto simp: write_rb_def Let_def k_def)
  next
    case False
    from inv have c: "0 < capacity rb" and l: "length (buffer rb) = capacity rb"
      and w: "write_pos rb < capacity rb" and r: "read_pos rb < capacity rb"
      and s: "size_rb rb \<le> capacity rb"
      and e: "write_pos rb = (read_pos rb + size_rb rb) mod capacity rb"
      by (simp_all add: ring_inv_def)
    define fp where "fp = min k (capacity rb - write_pos rb)"
    define b1 where "b1 = memcpy_into (buffer rb) (write_pos rb) (take fp data)"
    define b2 where "b2 = (if fp < k then memcpy_into b1 0 (take (k - fp) (drop fp data)) else b1)"
    define rb' where "rb' = rb\<lparr>buffer := b2, write_pos := (write_pos rb + k) mod capacity rb,
                                size_rb := size_rb rb + k\<rparr>"
    from False have n0: "n \<noteq> 0" and k0: "min n (capacity rb - size_rb rb) \<noteq> 0"
      by (simp_all add: k_def)
    have res: "fst (write_rb rb data n) = rb'"
      unfolding write_rb_def Let_def rb'_def b2_def b1_def fp_def k_def
      using n0 k0 by (simp only: if_False fst_conv)
    have kle: "size_rb rb + k \<le> capacity rb" using s by (simp add: k_def)
    have l1: "length b1 = capacity rb"
      unfolding b1_def using l w by (simp add: length_memcpy_into fp_def)
    have "k - fp \<le> capacity rb" using kle by simp
    then have l2: "length b2 = capacity rb"
      unfolding b2_def using l1 by (simp add: length_memcpy_into)
    have wp: "(write_pos rb + k) mod capacity rb = (read_pos rb + (size_rb rb + k)) mod capacity rb"
      unfolding e by (simp add: mod_add_left_eq add.assoc)
    have "ring_inv rb'"
      unfolding ring_inv_def rb'_def using c l2 r kle wp by simp
    with res show ?thesis by simp
  qed
qed

lemma mod_advance:
  fixes rp s k c :: nat
  assumes "k \<le> s"
  shows "((rp + k) mod c + (s - k)) mod c = (rp + s) mod c"
proof -
  have "((rp + k) mod c + (s - k)) mod c = ((rp + k) + (s - k)) mod c"
    by (rule mod_add_left_eq)
  also have "(rp + k) + (s - k) = rp + s"
    using assms by simp
  finally show ?thesis .
qed

lemma read_inv: "ring_inv rb \<Longrightarrow> ring_inv (fst (read_rb rb m))"
proof -
  assume inv: "ring_inv rb"
  show ?thesis
  proof (cases "m = 0 \<or> size_rb rb = 0")
    case True
    with inv show ?thesis by (simp add: read_rb_def)
  next
    case False
    define k where "k = min m (size_rb rb)"
    define rb' where "rb' = rb\<lparr>read_pos := (read_pos rb + k) mod capacity rb,
                                size_rb := size_rb rb - k\<rparr>"
    have res: "fst (read_rb rb m) = rb'"
      using False by (simp add: read_rb_def Let_def rb'_def k_def)
    have kle: "k \<le> size_rb rb" by (simp add: k_def)
    have wp: "((read_pos rb + k) mod capacity rb + (size_rb rb - k)) mod capacity rb
          = (read_pos rb + size_rb rb) mod capacity rb"
      using kle by (rule mod_advance)
    from inv have c: "0 < capacity rb" and l: "length (buffer rb) = capacity rb"
      and w: "write_pos rb < capacity rb" and s: "size_rb rb \<le> capacity rb"
      and e: "write_pos rb = (read_pos rb + size_rb rb) mod capacity rb"
      by (simp_all add: ring_inv_def)
    have "ring_inv rb'"
      unfolding ring_inv_def rb'_def using c l w s e wp by simp
    with res show ?thesis by simp
  qed
qed

lemma read_output_length:
  "ring_inv rb \<Longrightarrow> length (fst (snd (read_rb rb m))) = min m (size_rb rb)"
  by (simp add: read_rb_def Let_def length_copy_out)

lemma step_inv: "ring_inv rb \<Longrightarrow> ring_inv (fst (ring_step x rb))"
  by (cases x) (auto simp: split_def Let_def write_inv read_inv peek_state)

lemma step_capacity: "capacity (fst (ring_step x rb)) = capacity rb"
  by (cases x) (simp_all add: split_def Let_def write_capacity read_capacity peek_state)

lemma step_balance:
  "size_rb rb + fst (snd (ring_step x rb)) =
   snd (snd (ring_step x rb)) + size_rb (fst (ring_step x rb))"
proof (cases x)
  case (Write data)
  then show ?thesis by (simp add: split_def Let_def write_size)
next
  case (Read m)
  then show ?thesis using read_size[of rb m] by (simp add: split_def Let_def)
next
  case (Peek k)
  then show ?thesis by (simp add: split_def Let_def peek_state)
qed

lemma run_inv: "ring_inv rb \<Longrightarrow> ring_inv (fst (ring_run xs rb))"
  by (induction xs arbitrary: rb) (auto simp: split_def Let_def step_inv)

lemma run_capacity: "capacity (fst (ring_run xs rb)) = capacity rb"
  by (induction xs arbitrary: rb) (simp_all add: split_def Let_def step_capacity)

lemma run_balance:
  "size_rb rb + fst (snd (ring_run xs rb)) =
   snd (snd (ring_run xs rb)) + size_rb (fst (ring_run xs rb))"
proof (induction xs arbitrary: rb)
  case Nil
  then show ?case by simp
next
  case (Cons x xs)
  from step_balance[of rb x] Cons.IH[of "fst (ring_step x rb)"]
  show ?case by (simp add: split_def Let_def)
qed

lemma take_clamped:
  "take (min n (length xs)) xs = take n xs"
  by (simp add: min_def)


lemma copy_out_rotate:
  assumes "ring_inv rb" and "k \<le> capacity rb"
  shows "copy_out rb k = take k (rotate (read_pos rb) (buffer rb))"
proof -
  from assms(1) have l: "length (buffer rb) = capacity rb" and r: "read_pos rb < capacity rb"
    by (simp_all add: ring_inv_def)
  have rot: "rotate (read_pos rb) (buffer rb) = drop (read_pos rb) (buffer rb) @ take (read_pos rb) (buffer rb)"
    using l r by (simp add: rotate_drop_take)
  show ?thesis
  proof (cases "k \<le> capacity rb - read_pos rb")
    case True
    then show ?thesis using l by (simp add: copy_out_def Let_def rot min_absorb1)
  next
    case False
    then have "min k (capacity rb - read_pos rb) = capacity rb - read_pos rb" by simp
    moreover have "k - (capacity rb - read_pos rb) \<le> read_pos rb" using assms(2) r by simp
    ultimately show ?thesis using False l r
      by (simp add: copy_out_def Let_def rot min_absorb1)
  qed
qed

lemma contents_rotate:
  assumes "ring_inv rb"
  shows "contents rb = take (size_rb rb) (rotate (read_pos rb) (buffer rb))"
  unfolding contents_def using assms by (intro copy_out_rotate) (simp_all add: ring_inv_def)

lemma length_contents: "ring_inv rb \<Longrightarrow> length (contents rb) = size_rb rb"
  by (simp add: contents_def length_copy_out)

lemma copy_out_contents:
  assumes "ring_inv rb" and "k \<le> size_rb rb"
  shows "copy_out rb k = take k (contents rb)"
proof -
  from assms have "k \<le> capacity rb" by (simp add: ring_inv_def)
  with assms show ?thesis
    by (simp add: copy_out_rotate contents_rotate min_absorb1)
qed

lemma read_output:
  assumes "ring_inv rb"
  shows "fst (snd (read_rb rb m)) = take m (contents rb)"
proof (cases "m = 0 \<or> size_rb rb = 0")
  case True
  with assms length_contents[OF assms] show ?thesis by (auto simp: read_rb_def)
next
  case False
  have "copy_out rb (min m (size_rb rb)) = take (min m (size_rb rb)) (contents rb)"
    using assms by (intro copy_out_contents) simp_all
  also have "\<dots> = take m (contents rb)"
    using length_contents[OF assms] by (simp add: min_def)
  finally show ?thesis using False by (simp add: read_rb_def Let_def)
qed

lemma read_contents:
  assumes "ring_inv rb"
  shows "contents (fst (read_rb rb m)) = drop m (contents rb)"
proof (cases "m = 0 \<or> size_rb rb = 0")
  case True
  with assms length_contents[OF assms] show ?thesis by (auto simp: read_rb_def)
next
  case False
  define k where "k = min m (size_rb rb)"
  define rb' where "rb' = rb\<lparr>read_pos := (read_pos rb + k) mod capacity rb,
                              size_rb := size_rb rb - k\<rparr>"
  have res: "fst (read_rb rb m) = rb'"
    using False by (simp add: read_rb_def Let_def rb'_def k_def)
  from assms have l: "length (buffer rb) = capacity rb" and s: "size_rb rb \<le> capacity rb"
    and c: "0 < capacity rb"
    by (simp_all add: ring_inv_def)
  have inv': "ring_inv rb'" using read_inv[OF assms, of m] res by simp
  define ys where "ys = rotate (read_pos rb) (buffer rb)"
  have ly: "length ys = capacity rb" by (simp add: ys_def l)
  have kle: "k \<le> size_rb rb" by (simp add: k_def)
  have "contents rb' = take (size_rb rb - k) (rotate ((read_pos rb + k) mod capacity rb) (buffer rb))"
    using contents_rotate[OF inv'] by (simp add: rb'_def)
  also have "rotate ((read_pos rb + k) mod capacity rb) (buffer rb) = rotate (read_pos rb + k) (buffer rb)"
    using rotate_conv_mod[of "read_pos rb + k" "buffer rb"] l by simp
  also have "\<dots> = rotate k ys"
    by (simp add: ys_def rotate_rotate add.commute)
  also have "rotate k ys = drop k ys @ take k ys"
  proof (cases "k < capacity rb")
    case True
    then show ?thesis using ly by (simp add: rotate_drop_take)
  next
    case False
    with kle s have "k = length ys" using ly by simp
    then show ?thesis by simp
  qed
  also have "take (size_rb rb - k) (drop k ys @ take k ys) = take (size_rb rb - k) (drop k ys)"
    using s ly by simp
  also have "\<dots> = drop k (take (size_rb rb) ys)"
    using kle by (simp add: drop_take)
  also have "take (size_rb rb) ys = contents rb"
    using contents_rotate[OF assms] by (simp add: ys_def)
  also have "drop k (contents rb) = drop m (contents rb)"
    using length_contents[OF assms] by (simp add: k_def min_def)
  finally show ?thesis using res by simp
qed

lemma nth_memcpy_into:
  assumes "pos + length src \<le> length dst" and "j < length dst"
  shows "memcpy_into dst pos src ! j =
         (if pos \<le> j \<and> j < pos + length src then src ! (j - pos) else dst ! j)"
proof -
  have lt: "length (take pos dst) = pos" using assms(1) by simp
  show ?thesis
  proof (cases "j < pos")
    case True
    then show ?thesis using assms by (simp add: memcpy_into_def nth_append)
  next
    case False
    note ge = this
    show ?thesis
    proof (cases "j < pos + length src")
      case True
      with ge have "j - pos < length src" by arith
      with True ge assms show ?thesis by (simp add: memcpy_into_def nth_append)
    next
      case False
      with ge have a: "\<not> j - pos < length src" by arith
      from False ge have b: "pos + length src + (j - pos - length src) = j" by arith
      from False ge a b assms show ?thesis
        by (simp add: memcpy_into_def nth_append)
    qed
  qed
qed

lemma contents_nth:
  assumes "ring_inv rb" and "i < size_rb rb"
  shows "contents rb ! i = buffer rb ! ((read_pos rb + i) mod capacity rb)"
proof -
  from assms have l: "length (buffer rb) = capacity rb" and "i < capacity rb"
    by (simp_all add: ring_inv_def)
  then show ?thesis
    using assms(2) by (simp add: contents_rotate[OF assms(1)] nth_rotate)
qed


lemma write_window:
  assumes inv: "ring_inv rb" and len: "n \<le> length data" and t: "t < capacity rb"
  defines "k \<equiv> min n (capacity rb - size_rb rb)"
  defines "p \<equiv> (write_pos rb + t) mod capacity rb"
  shows "buffer (fst (write_rb rb data n)) ! p = (if t < k then data ! t else buffer rb ! p)"
proof (cases "n = 0 \<or> k = 0")
  case True
  then have "fst (write_rb rb data n) = rb"
    by (auto simp: write_rb_def Let_def k_def)
  moreover from True have "\<not> t < k" by (auto simp: k_def)
  ultimately show ?thesis by simp
next
  case False
  from inv have c: "0 < capacity rb" and l: "length (buffer rb) = capacity rb"
    and w: "write_pos rb < capacity rb" and s: "size_rb rb \<le> capacity rb"
    by (simp_all add: ring_inv_def)
  define cap where "cap = capacity rb"
  define wp where "wp = write_pos rb"
  define fp where "fp = min k (cap - wp)"
  define b1 where "b1 = memcpy_into (buffer rb) wp (take fp data)"
  define b2 where "b2 = (if fp < k then memcpy_into b1 0 (take (k - fp) (drop fp data)) else b1)"
  from False have n0: "n \<noteq> 0" and k0: "min n (capacity rb - size_rb rb) \<noteq> 0"
    by (simp_all add: k_def)
  have res: "buffer (fst (write_rb rb data n)) = b2"
    unfolding write_rb_def Let_def b2_def b1_def fp_def k_def cap_def wp_def
    using n0 k0 by (simp only: if_False fst_conv) simp
  have kn: "k \<le> length data" using len by (simp add: k_def)
  have kc: "k \<le> cap" using s by (simp add: k_def cap_def)
  have wc: "wp < cap" using w by (simp add: wp_def cap_def)
  have lb: "length (buffer rb) = cap" using l by (simp add: cap_def)
  have tc: "t < cap" using t by (simp add: cap_def)
  have fpk: "fp \<le> k" by (simp add: fp_def)
  have fpw: "wp + fp \<le> cap" unfolding fp_def using wc by arith
  have lfp: "length (take fp data) = fp" using fpk kn by simp
  have l1: "length b1 = cap"
    unfolding b1_def using lb fpw lfp by (simp add: length_memcpy_into)
  have b1n: "b1 ! j = (if wp \<le> j \<and> j < wp + fp then data ! (j - wp) else buffer rb ! j)"
    if "j < cap" for j
    unfolding b1_def using nth_memcpy_into[of wp "take fp data" "buffer rb" j] that lb fpw lfp
    by auto
  have l2: "length (take (k - fp) (drop fp data)) = k - fp" using kn by simp
  have b2n: "b2 ! j = (if fp < k \<and> j < k - fp then data ! (fp + j) else b1 ! j)"
    if "j < cap" for j
  proof (cases "fp < k")
    case True
    have "k - fp \<le> length b1" using l1 kc by simp
    then show ?thesis
      unfolding b2_def using nth_memcpy_into[of 0 "take (k - fp) (drop fp data)" b1 j] that l1 l2 True
      by auto
  next
    case False
    then show ?thesis by (simp add: b2_def)
  qed
  have pdef: "p = (wp + t) mod cap" by (simp add: p_def wp_def cap_def)
  show ?thesis
  proof (cases "wp + t < cap")
    case True
    then have pv: "p = wp + t" by (simp add: pdef)
    have notsecond: "\<not> (fp < k \<and> p < k - fp)"
    proof
      assume a: "fp < k \<and> p < k - fp"
      then have "fp = cap - wp" by (simp add: fp_def min_def split: if_splits)
      with a kc wc pv show False by arith
    qed
    have "t < fp \<longleftrightarrow> t < k" unfolding fp_def using True by arith
    then show ?thesis
      unfolding res using b2n[of p] b1n[of p] notsecond True pv by auto
  next
    case False
    then have "(wp + t) mod cap = (wp + t - cap) mod cap" by (simp add: le_mod_geq)
    also have "\<dots> = wp + t - cap" using wc tc by (intro mod_less) arith
    finally have pv: "p = wp + t - cap" by (simp add: pdef)
    have pc: "p < cap" using pv wc tc by arith
    have tfp: "fp \<le> t" unfolding fp_def using False by arith
    show ?thesis
    proof (cases "t < k")
      case True
      with tfp have fk: "fp < k" by simp
      then have fpe: "fp = cap - wp" by (simp add: fp_def min_def split: if_splits)
      have "p < k - fp" using True pv fpe False wc by arith
      moreover have "fp + p = t" using pv fpe False wc by arith
      ultimately show ?thesis
        unfolding res using b2n[OF pc] fk True by simp
    next
      case nk: False
      have ns: "\<not> (fp < k \<and> p < k - fp)"
      proof
        assume a: "fp < k \<and> p < k - fp"
        then have "fp = cap - wp" by (simp add: fp_def min_def split: if_splits)
        with a nk pv False wc show False by arith
      qed
      have "\<not> (wp \<le> p \<and> p < wp + fp)" using pv tc False by arith
      then have "b1 ! p = buffer rb ! p" using b1n[OF pc] by (simp only: if_False)
      moreover have "b2 ! p = b1 ! p" using b2n[OF pc] ns by (simp only: if_False)
      ultimately show ?thesis
        unfolding res using nk by simp
    qed
  qed
qed


lemma write_read_pos: "read_pos (fst (write_rb rb data n)) = read_pos rb"
  by (simp add: write_rb_def Let_def)

lemma write_contents:
  assumes inv: "ring_inv rb" and len: "n \<le> length data"
  shows "contents (fst (write_rb rb data n)) =
         contents rb @ take (min n (capacity rb - size_rb rb)) data"
proof (rule nth_equalityI)
  define k where "k = min n (capacity rb - size_rb rb)"
  define rb' where "rb' = fst (write_rb rb data n)"
  define c where "c = capacity rb"
  define sz where "sz = size_rb rb"
  have inv': "ring_inv rb'" unfolding rb'_def using inv by (rule write_inv)
  have size': "size_rb rb' = sz + k"
    unfolding rb'_def k_def sz_def using write_size[of rb data n] write_count[of rb data n] by simp
  have cap': "capacity rb' = c" by (simp add: rb'_def c_def write_capacity)
  have rp': "read_pos rb' = read_pos rb" by (simp add: rb'_def write_read_pos)
  from inv have c0: "0 < c" and sc: "sz \<le> c"
    and wp: "write_pos rb = (read_pos rb + sz) mod c"
    by (simp_all add: ring_inv_def c_def sz_def)
  have kn: "k \<le> length data" using len by (simp add: k_def)
  have kc: "sz + k \<le> c" using sc by (simp add: k_def c_def sz_def)
  have lc: "length (contents rb) = sz" using length_contents[OF inv] by (simp add: sz_def)
  show l: "length (contents (fst (write_rb rb data n))) =
        length (contents rb @ take (min n (capacity rb - size_rb rb)) data)"
    using length_contents[OF inv'] size' lc kn
    by (simp add: rb'_def[symmetric] k_def[symmetric])
  fix i
  assume "i < length (contents (fst (write_rb rb data n)))"
  then have i: "i < sz + k"
    using length_contents[OF inv'] size' by (simp add: rb'_def[symmetric])
  have lhs: "contents rb' ! i = buffer rb' ! ((read_pos rb + i) mod c)"
    using contents_nth[OF inv', of i] i size' by (simp add: cap' rp')
  have "buffer rb' ! ((read_pos rb + i) mod c) = (contents rb @ take k data) ! i"
  proof (cases "i < sz")
    case True
    define t where "t = c - sz + i"
    have tc: "t < c" unfolding t_def using True sc by arith
    have tk: "\<not> t < k" unfolding t_def using kc by arith
    have "(write_pos rb + t) mod c = ((read_pos rb + sz) + t) mod c"
      unfolding wp by (rule mod_add_left_eq)
    also have "(read_pos rb + sz) + t = (read_pos rb + i) + c"
      unfolding t_def using sc by arith
    also have "((read_pos rb + i) + c) mod c = (read_pos rb + i) mod c" by simp
    finally have p: "(write_pos rb + t) mod c = (read_pos rb + i) mod c" .
    have ww: "buffer rb' ! ((write_pos rb + t) mod c) =
          (if t < k then data ! t else buffer rb ! ((write_pos rb + t) mod c))"
      unfolding rb'_def k_def c_def using inv len tc[unfolded c_def] by (rule write_window)
    have "buffer rb' ! ((write_pos rb + t) mod c) = buffer rb ! ((write_pos rb + t) mod c)"
      using tk by (simp only: ww if_False)
    then have "buffer rb' ! ((read_pos rb + i) mod c) = buffer rb ! ((read_pos rb + i) mod c)"
      unfolding p .
    also have "\<dots> = contents rb ! i"
      using contents_nth[OF inv, of i] True by (simp add: sz_def c_def)
    also have "\<dots> = (contents rb @ take k data) ! i"
      using True lc by (simp add: nth_append)
    finally show ?thesis .
  next
    case False
    define t where "t = i - sz"
    have tk: "t < k" unfolding t_def using False i by arith
    have tc: "t < c" using tk kc by arith
    have "(write_pos rb + t) mod c = ((read_pos rb + sz) + t) mod c"
      unfolding wp by (rule mod_add_left_eq)
    also have "(read_pos rb + sz) + t = read_pos rb + i"
      unfolding t_def using False by arith
    finally have p: "(write_pos rb + t) mod c = (read_pos rb + i) mod c" .
    have ww: "buffer rb' ! ((write_pos rb + t) mod c) =
          (if t < k then data ! t else buffer rb ! ((write_pos rb + t) mod c))"
      unfolding rb'_def k_def c_def using inv len tc[unfolded c_def] by (rule write_window)
    have "buffer rb' ! ((write_pos rb + t) mod c) = data ! t"
      using tk by (simp only: ww if_True)
    then have "buffer rb' ! ((read_pos rb + i) mod c) = data ! t"
      unfolding p .
    also have "\<dots> = (contents rb @ take k data) ! i"
      using False lc tk by (simp add: nth_append t_def)
    finally show ?thesis .
  qed
  with lhs show "contents (fst (write_rb rb data n)) ! i =
        (contents rb @ take (min n (capacity rb - size_rb rb)) data) ! i"
    by (simp add: rb'_def[symmetric] k_def[symmetric])
qed

lemma peek_output:
  assumes "ring_inv rb"
  shows "fst (snd (peek_rb rb m)) = take m (contents rb)"
proof -
  have "fst (snd (peek_rb rb m)) = fst (snd (read_rb rb m))"
    by (simp add: peek_rb_def read_rb_def Let_def)
  then show ?thesis using read_output[OF assms, of m] by simp
qed

lemma peek_count: "snd (snd (peek_rb rb m)) = min m (size_rb rb)"
  by (simp add: peek_rb_def Let_def)

lemma trace_final: "fst (ring_trace ops rb) = fst (ring_run ops rb)"
proof (induction ops rb rule: ring_trace.induct)
  case (1 rb)
  show ?case by simp
next
  case (2 data xs rb)
  from 2[of "write_rb rb data (length data)" "fst (write_rb rb data (length data))"
           "snd (write_rb rb data (length data))"]
  show ?case by (simp add: split_def Let_def)
next
  case (3 m xs rb)
  from 3[of "read_rb rb m" "fst (read_rb rb m)" "snd (read_rb rb m)"
           "fst (snd (read_rb rb m))" "snd (snd (read_rb rb m))"]
  show ?case by (simp add: split_def Let_def)
next
  case (4 m xs rb)
  have pp: "(rb, snd (peek_rb rb m)) = peek_rb rb m" by (simp add: peek_rb_def Let_def)
  from 4[of "peek_rb rb m" "fst (peek_rb rb m)" "snd (peek_rb rb m)"
           "fst (snd (peek_rb rb m))" "snd (snd (peek_rb rb m))"] pp
  show ?case by (simp add: split_def Let_def peek_state)
qed

lemma trace_fifo:
  "ring_inv rb \<Longrightarrow>
   snd (snd (ring_trace ops rb)) @ contents (fst (ring_trace ops rb)) =
     contents rb @ fst (snd (ring_trace ops rb)) \<and>
   length (fst (snd (ring_trace ops rb))) = fst (snd (ring_run ops rb)) \<and>
   length (snd (snd (ring_trace ops rb))) = snd (snd (ring_run ops rb))"
proof (induction ops rb rule: ring_trace.induct)
  case (1 rb)
  show ?case by simp
next
  case (2 data xs rb)
  define rb1 where "rb1 = fst (write_rb rb data (length data))"
  define k where "k = snd (write_rb rb data (length data))"
  have inv1: "ring_inv rb1" unfolding rb1_def using "2.prems" by (rule write_inv)
  have kv: "k = min (length data) (capacity rb - size_rb rb)" by (simp add: k_def write_count)
  have c1: "contents rb1 = contents rb @ take k data"
    unfolding rb1_def kv using "2.prems" by (intro write_contents) simp_all
  from "2.IH"[of "write_rb rb data (length data)" rb1 k] inv1
  have ih: "snd (snd (ring_trace xs rb1)) @ contents (fst (ring_trace xs rb1)) =
     contents rb1 @ fst (snd (ring_trace xs rb1)) \<and>
   length (fst (snd (ring_trace xs rb1))) = fst (snd (ring_run xs rb1)) \<and>
   length (snd (snd (ring_trace xs rb1))) = snd (snd (ring_run xs rb1))"
    by (simp add: rb1_def k_def)
  have kl: "length (take k data) = k" by (simp add: kv)
  show ?case
    using ih c1 kl
    by (simp add: split_def Let_def rb1_def[symmetric] k_def[symmetric])
next
  case (3 m xs rb)
  define rb1 where "rb1 = fst (read_rb rb m)"
  define out where "out = fst (snd (read_rb rb m))"
  have inv1: "ring_inv rb1" unfolding rb1_def using "3.prems" by (rule read_inv)
  have o: "out = take m (contents rb)" unfolding out_def using "3.prems" by (rule read_output)
  have c1: "contents rb1 = drop m (contents rb)"
    unfolding rb1_def using "3.prems" by (rule read_contents)
  have ol: "length out = snd (snd (read_rb rb m))"
    unfolding out_def using read_output_length[OF "3.prems", of m] by (simp add: read_count)
  from "3.IH"[of "read_rb rb m" rb1 "snd (read_rb rb m)" out "snd (snd (read_rb rb m))"] inv1
  have ih: "snd (snd (ring_trace xs rb1)) @ contents (fst (ring_trace xs rb1)) =
     contents rb1 @ fst (snd (ring_trace xs rb1)) \<and>
   length (fst (snd (ring_trace xs rb1))) = fst (snd (ring_run xs rb1)) \<and>
   length (snd (snd (ring_trace xs rb1))) = snd (snd (ring_run xs rb1))"
    by (simp add: rb1_def out_def)
  have "out @ contents rb1 = contents rb" by (simp add: o c1)
  then have "out @ contents rb1 @ fst (snd (ring_trace xs rb1)) =
     contents rb @ fst (snd (ring_trace xs rb1))" by (metis append_assoc)
  then show ?case
    using ih ol
    by (simp add: split_def Let_def rb1_def[symmetric] out_def[symmetric])
next
  case (4 m xs rb)
  have pp: "(rb, snd (peek_rb rb m)) = peek_rb rb m" by (simp add: peek_rb_def Let_def)
  from "4.IH"[of "peek_rb rb m" "fst (peek_rb rb m)" "snd (peek_rb rb m)"
           "fst (snd (peek_rb rb m))" "snd (snd (peek_rb rb m))"] "4.prems" pp
  show ?case by (simp add: split_def Let_def peek_state)
qed

text \<open>
  Claim C4 (ring buffer conservation). For a ring in its invariant (any ring built by the
  constructor, capacity \<open>N > 0\<close>) and any finite sequence \<open>ops\<close> of write, read and peek
  calls:
  \<^item> after every prefix of the sequence the invariant holds, so \<open>0 \<le> size \<le> N\<close>, the
    capacity is still \<open>N\<close> and the queue holds exactly \<open>size\<close> elements;
  \<^item> the elements delivered by the reads, followed by the elements still queued at the end,
    are the elements queued at the start followed by the elements accepted by the writes, in
    order; in numbers, initial size plus total written equals total read plus final size
    (from an empty ring: written = read + final size);
  \<^item> one write of \<open>n\<close> elements returns \<open>min n (N - size)\<close> and appends exactly the first
    that many source elements to the queue;
  \<^item> one read of \<open>m\<close> returns \<open>min m size\<close>, delivers exactly the oldest that many queued
    elements and removes them from the queue;
  \<^item> a peek delivers the same elements as the read would and returns the same buffer, in
    particular the same size, read index and write index.
\<close>

theorem ring_conservation:
  assumes "ring_inv rb"
  shows "(\<forall>i \<le> length ops.
            ring_inv (fst (ring_run (take i ops) rb)) \<and>
            size_rb (fst (ring_run (take i ops) rb)) \<le> capacity rb \<and>
            capacity (fst (ring_run (take i ops) rb)) = capacity rb \<and>
            length (contents (fst (ring_run (take i ops) rb))) =
              size_rb (fst (ring_run (take i ops) rb))) \<and>
         size_rb rb + fst (snd (ring_run ops rb)) =
           snd (snd (ring_run ops rb)) + size_rb (fst (ring_run ops rb)) \<and>
         (size_rb rb = 0 \<longrightarrow>
            fst (snd (ring_run ops rb)) =
              snd (snd (ring_run ops rb)) + size_rb (fst (ring_run ops rb))) \<and>
         fst (ring_trace ops rb) = fst (ring_run ops rb) \<and>
         length (fst (snd (ring_trace ops rb))) = fst (snd (ring_run ops rb)) \<and>
         length (snd (snd (ring_trace ops rb))) = snd (snd (ring_run ops rb)) \<and>
         snd (snd (ring_trace ops rb)) @ contents (fst (ring_run ops rb)) =
           contents rb @ fst (snd (ring_trace ops rb)) \<and>
         snd (write_rb rb data n) = min n (capacity rb - size_rb rb) \<and>
         size_rb (fst (write_rb rb data n)) = size_rb rb + min n (capacity rb - size_rb rb) \<and>
         (n \<le> length data \<longrightarrow>
            contents (fst (write_rb rb data n)) =
              contents rb @ take (min n (capacity rb - size_rb rb)) data) \<and>
         snd (snd (read_rb rb m)) = min m (size_rb rb) \<and>
         fst (snd (read_rb rb m)) = take (min m (size_rb rb)) (contents rb) \<and>
         length (fst (snd (read_rb rb m))) = min m (size_rb rb) \<and>
         size_rb (fst (read_rb rb m)) = size_rb rb - min m (size_rb rb) \<and>
         contents (fst (read_rb rb m)) = drop (min m (size_rb rb)) (contents rb) \<and>
         fst (peek_rb rb k) = rb \<and>
         snd (snd (peek_rb rb k)) = min k (size_rb rb) \<and>
         fst (snd (peek_rb rb k)) = take (min k (size_rb rb)) (contents rb) \<and>
         size_rb (fst (peek_rb rb k)) = size_rb rb \<and>
         read_pos (fst (peek_rb rb k)) = read_pos rb \<and>
         write_pos (fst (peek_rb rb k)) = write_pos rb"
proof -
  have prefixes: "\<forall>i \<le> length ops.
            ring_inv (fst (ring_run (take i ops) rb)) \<and>
            size_rb (fst (ring_run (take i ops) rb)) \<le> capacity rb \<and>
            capacity (fst (ring_run (take i ops) rb)) = capacity rb \<and>
            length (contents (fst (ring_run (take i ops) rb))) =
              size_rb (fst (ring_run (take i ops) rb))"
  proof (intro allI impI)
    fix i
    let ?r = "fst (ring_run (take i ops) rb)"
    have inv: "ring_inv ?r" using assms by (rule run_inv)
    have cap: "capacity ?r = capacity rb" by (rule run_capacity)
    from inv have "size_rb ?r \<le> capacity ?r" by (simp add: ring_inv_def)
    with inv cap length_contents[OF inv]
    show "ring_inv ?r \<and> size_rb ?r \<le> capacity rb \<and> capacity ?r = capacity rb \<and>
          length (contents ?r) = size_rb ?r"
      by simp
  qed
  have bal: "size_rb rb + fst (snd (ring_run ops rb)) =
           snd (snd (ring_run ops rb)) + size_rb (fst (ring_run ops rb))"
    by (rule run_balance)
  have bal0: "size_rb rb = 0 \<longrightarrow>
            fst (snd (ring_run ops rb)) =
              snd (snd (ring_run ops rb)) + size_rb (fst (ring_run ops rb))"
    using bal by simp
  have tf: "fst (ring_trace ops rb) = fst (ring_run ops rb)"
    by (rule trace_final)
  note fifo = trace_fifo[OF assms, of ops, unfolded tf]
  have lc: "length (contents rb) = size_rb rb"
    using assms by (rule length_contents)
  have wr: "size_rb (fst (write_rb rb data n)) = size_rb rb + min n (capacity rb - size_rb rb)"
    using write_size[of rb data n] write_count[of rb data n] by simp
  have wc: "n \<le> length data \<longrightarrow>
            contents (fst (write_rb rb data n)) =
              contents rb @ take (min n (capacity rb - size_rb rb)) data"
    using write_contents[OF assms] by blast
  have ro: "fst (snd (read_rb rb m)) = take (min m (size_rb rb)) (contents rb)"
    using read_output[OF assms, of m] take_clamped[of m "contents rb"] lc by simp
  have rd: "size_rb (fst (read_rb rb m)) = size_rb rb - min m (size_rb rb)"
    using read_size[of rb m] read_count[of rb m] by simp
  have rc: "contents (fst (read_rb rb m)) = drop (min m (size_rb rb)) (contents rb)"
    using read_contents[OF assms, of m] lc by (simp add: min_def)
  have pk: "fst (peek_rb rb k) = rb"
    by (rule peek_state)
  have po: "fst (snd (peek_rb rb k)) = take (min k (size_rb rb)) (contents rb)"
    using peek_output[OF assms, of k] take_clamped[of k "contents rb"] lc by simp
  note parts = prefixes bal bal0 tf fifo[THEN conjunct2, THEN conjunct1]
    fifo[THEN conjunct2, THEN conjunct2] fifo[THEN conjunct1]
    write_count[of rb data n] wr wc read_count[of rb m] ro
    read_output_length[OF assms, of m] rd rc pk peek_count[of rb k] po
  show ?thesis
    unfolding pk by (intro conjI parts refl)
qed

text \<open>
  A run on a ring of capacity 4 with a wrapping write and an over-long read: six elements
  go in, the same six come out in the same order, and the ring ends empty.
\<close>

theorem ring_conservation_witness:
  "ring_inv \<lparr>buffer = [0, 0, 0, 0 :: nat], capacity = 4, write_pos = 0, read_pos = 0,
             size_rb = 0\<rparr> \<and>
   ring_run [Write [1, 2, 3], Read 2, Write [4, 5, 6, 7], Peek 2, Read 5]
     \<lparr>buffer = [0, 0, 0, 0 :: nat], capacity = 4, write_pos = 0, read_pos = 0, size_rb = 0\<rparr>
   = (\<lparr>buffer = [5, 6, 3, 4], capacity = 4, write_pos = 2, read_pos = 2, size_rb = 0\<rparr>, 6, 6) \<and>
   ring_trace [Write [1, 2, 3], Read 2, Write [4, 5, 6, 7], Peek 2, Read 5]
     \<lparr>buffer = [0, 0, 0, 0 :: nat], capacity = 4, write_pos = 0, read_pos = 0, size_rb = 0\<rparr>
   = (\<lparr>buffer = [5, 6, 3, 4], capacity = 4, write_pos = 2, read_pos = 2, size_rb = 0\<rparr>,
      [1, 2, 3, 4, 5, 6], [1, 2, 3, 4, 5, 6]) \<and>
   ring_inv (fst (ring_run [Write [1, 2, 3], Read 2, Write [4, 5, 6, 7], Peek 2, Read 5]
     \<lparr>buffer = [0, 0, 0, 0 :: nat], capacity = 4, write_pos = 0, read_pos = 0, size_rb = 0\<rparr>)) \<and>
   (3 :: nat) \<le> length [1, 2, 3 :: nat] \<and>
   contents (fst (write_rb
     \<lparr>buffer = [0, 0, 0, 0 :: nat], capacity = 4, write_pos = 0, read_pos = 0, size_rb = 0\<rparr>
     [1, 2, 3] 3)) = [1, 2, 3]"
proof -
  let ?rb = "\<lparr>buffer = [0, 0, 0, 0 :: nat], capacity = 4, write_pos = 0, read_pos = 0,
              size_rb = 0\<rparr>"
  let ?ops = "[Write [1, 2, 3], Read 2, Write [4, 5, 6, 7], Peek 2, Read 5 :: nat ring_op]"
  have h: "ring_inv ?rb" by (simp add: ring_inv_def)
  have run: "ring_run ?ops ?rb =
      (\<lparr>buffer = [5, 6, 3, 4], capacity = 4, write_pos = 2, read_pos = 2, size_rb = 0\<rparr>, 6, 6)"
    by (simp add: write_rb_def read_rb_def peek_rb_def copy_out_def memcpy_into_def Let_def)
  have trace: "ring_trace ?ops ?rb =
      (\<lparr>buffer = [5, 6, 3, 4], capacity = 4, write_pos = 2, read_pos = 2, size_rb = 0\<rparr>,
       [1, 2, 3, 4, 5, 6], [1, 2, 3, 4, 5, 6])"
    by (simp add: write_rb_def read_rb_def peek_rb_def copy_out_def memcpy_into_def Let_def)
  note rc = ring_conservation[OF h, where ops = ?ops and data = "[1, 2, 3]" and n = 3]
  from rc have "ring_inv (fst (ring_run (take (length ?ops) ?ops) ?rb))"
    by blast
  then have inv: "ring_inv (fst (ring_run ?ops ?rb))" by simp
  have c0: "contents ?rb = []" by (simp add: contents_def copy_out_def)
  have l: "(3 :: nat) \<le> length [1, 2, 3 :: nat]" by simp
  from rc l have "contents (fst (write_rb ?rb [1, 2, 3] 3)) =
      contents ?rb @ take (min 3 (capacity ?rb - size_rb ?rb)) [1, 2, 3]"
    by blast
  then have wc: "contents (fst (write_rb ?rb [1, 2, 3] 3)) = [1, 2, 3]"
    unfolding c0 by simp
  from h run trace inv l wc show ?thesis by simp
qed

section \<open>Properties of the audio buffer\<close>

lemma read_rb_zero: "read_rb rb 0 = (rb, [], 0)"
  by (simp add: read_rb_def)



lemma music_buffer_new: "AudioBuffer_new 48000 2 20 = Inr music_buffer"
  by (simp add: AudioBuffer_new_def RingBuffer_new_def Let_def music_buffer_def)





lemma read_samples_late:
  assumes "\<not> empty (ring b)" and "0 \<le> sint (time_diff now_ms (timestamp b))"
  shows "read_samples b count now_ms =
     (let skip = samples_to_skip b now_ms;
          rb1 = fst (read_rb (ring b) (skip * unat (channels b)));
          r = read_rb rb1 (count * unat (channels b));
          rd = snd (snd r)
      in (b\<lparr>ring := fst r,
              timestamp := timestamp b + of_nat (skip div unat (samples_per_ms b))
                           + of_nat ((rd div unat (channels b)) div unat (samples_per_ms b))\<rparr>,
          fst (snd r), rd div unat (channels b)))"
proof (cases "samples_to_skip b now_ms = 0")
  case True
  with assms show ?thesis
    by (simp add: read_samples_def Let_def split_def read_rb_zero)
next
  case False
  with assms show ?thesis
    by (simp add: read_samples_def Let_def split_def)
qed

lemma read_samples_timestamp:
  assumes "\<not> empty (ring b)" and "0 \<le> sint (time_diff now_ms (timestamp b))"
  shows "timestamp (fst (read_samples b count now_ms)) =
         timestamp b + of_nat (samples_to_skip b now_ms div unat (samples_per_ms b))
         + of_nat (snd (snd (read_samples b count now_ms)) div unat (samples_per_ms b))"
  by (simp add: read_samples_late[OF assms] Let_def)
















section \<open>Properties of the sync manager\<close>






lemma calculateBufferAdjustment_le_40: "calculateBufferAdjustment l \<le> 40"
  by (simp add: calculateBufferAdjustment_def Let_def)

lemma calculateBufferAdjustment_in_range:
  assumes "unat l \<le> 2 ^ 32 - 11"
  shows "unat (calculateBufferAdjustment l) = min (unat l + 10) 40"
proof -
  have "unat l + unat (10 :: 32 word) < 2 ^ LENGTH(32)" using assms by simp
  then have s: "unat (l + 10) = unat l + 10"
    using unat_add_lem[of l "10 :: 32 word"] by simp
  show ?thesis
  proof (cases "l + 10 \<le> 40")
    case True
    then have "unat (l + 10) \<le> 40" by (simp add: word_le_nat_alt)
    with True s show ?thesis by (simp add: calculateBufferAdjustment_def Let_def min_def)
  next
    case False
    then have "\<not> unat (l + 10) \<le> 40" by (simp add: word_le_nat_alt)
    with False s show ?thesis by (simp add: calculateBufferAdjustment_def Let_def min_def)
  qed
qed

lemma calculateBufferAdjustment_mono_in_range:
  assumes "l \<le> l'" and "unat l' \<le> 2 ^ 32 - 11"
  shows "calculateBufferAdjustment l \<le> calculateBufferAdjustment l'"
proof -
  from assms have le: "unat l \<le> unat l'" by (simp add: word_le_nat_alt)
  with assms(2) have "unat l \<le> 2 ^ 32 - 11" by simp
  then have a: "unat (calculateBufferAdjustment l) = min (unat l + 10) 40"
    by (rule calculateBufferAdjustment_in_range)
  have b: "unat (calculateBufferAdjustment l') = min (unat l' + 10) 40"
    using assms(2) by (rule calculateBufferAdjustment_in_range)
  from le have "min (unat l + 10) 40 \<le> min (unat l' + 10) 40" by simp
  then show ?thesis by (simp add: word_le_nat_alt a b)
qed

text \<open>
  Claim C5 (buffer adjustment). The claim holds for every latency up to \<open>2^32 - 11\<close>
  (the three lemmas above: the value is \<open>min (l + 10) 40\<close>, it is non-decreasing there, and
  it never exceeds 40 for any input). It fails on the code for the ten largest inputs,
  where the 32-bit sum \<open>l + 10\<close> wraps around: \<^verbatim>\<open>calculateBufferAdjustment(4294967295)\<close>
  is 9, which is neither \<open>min (l + 10) 40 = 40\<close> nor at least the value 40 returned for the
  smaller latency 30.
\<close>

theorem buffer_adjustment_wraps:
  "calculateBufferAdjustment 4294967295 = 9 \<and>
   calculateBufferAdjustment 30 = 40 \<and>
   (30 :: 32 word) \<le> 4294967295 \<and>
   \<not> calculateBufferAdjustment 30 \<le> calculateBufferAdjustment 4294967295 \<and>
   unat (calculateBufferAdjustment 4294967295) \<noteq> min (unat (4294967295 :: 32 word) + 10) 40"
  by (simp add: calculateBufferAdjustment_def Let_def)

section \<open>Properties of the sync engine\<close>

lemma SyncEngine_new_no_stream: "audio_stream (SyncEngine_new rate ch ms t) = None"
  by (simp add: SyncEngine_new_def)

lemma updateSyncState_no_stream:
  "audio_stream (updateSyncState e f off) = audio_stream e"
  by (simp add: updateSyncState_def)

lemma stop_no_stream: "audio_stream e = None \<Longrightarrow> stop e pa = e"
  by (simp add: stop_def)

lemma initialize_failure_no_stream:
  "snd (initialize e pa tp) = Inl err \<Longrightarrow>
   audio_stream (fst (initialize e pa tp)) = audio_stream e"
  by (auto simp: initialize_def Let_def split: sum.splits)

text \<open>
  Claim C8 (not initialized), as amended. On every engine whose stream has not been
  built (a new engine, also after \<open>updateSyncState\<close>, \<open>stop\<close> or a failed \<open>initialize\<close>),
  \<open>start\<close> raises the not-initialized error and changes nothing, while
  \<open>writeAudioData\<close> raises nothing: it returns 0 frames and changes nothing.
\<close>

theorem not_initialized_behaviour:
  assumes "audio_stream e = None"
  shows "start e pa optimal_buffer_ms = (e, Inl NotInitialized) \<and>
         writeAudioData e data frames source_timestamp = (e, Inr 0) \<and>
         audio_stream (SyncEngine_new rate ch initial_buffer_ms steady_now) = None"
  using assms by (simp add: start_def writeAudioData_def SyncEngine_new_def)

text \<open>
  A new 48 kHz stereo engine: \<open>start\<close> fails, \<open>writeAudioData\<close> returns 0. After a
  successful \<open>initialize\<close> the same write is accepted and reports one frame.
\<close>

theorem not_initialized_behaviour_witness:
  "audio_stream (SyncEngine_new 48000 2 20 0) = None \<and>
   start (SyncEngine_new 48000 2 20 0) working_device 20 =
     (SyncEngine_new 48000 2 20 0, Inl NotInitialized) \<and>
   writeAudioData (SyncEngine_new 48000 2 20 0) [1, 2] 1 1000 =
     (SyncEngine_new 48000 2 20 0, Inr 0) \<and>
   snd (initialize (SyncEngine_new 48000 2 20 0) working_device (\<lambda>u. 0)) = Inr () \<and>
   snd (writeAudioData (fst (initialize (SyncEngine_new 48000 2 20 0) working_device (\<lambda>u. 0)))
         [1, 2] 1 1000) = Inr 1"
proof -
  have h: "audio_stream (SyncEngine_new 48000 2 20 0) = None"
    by (rule SyncEngine_new_no_stream)
  have i: "initialize (SyncEngine_new 48000 2 20 0) working_device (\<lambda>u. 0) =
      ((SyncEngine_new 48000 2 20 0)\<lparr>time_provider := Some (\<lambda>u. 0),
         audio_stream := Some \<lparr>stream_sample_rate = 48000, stream_channels = 2,
           stream_buffer = music_buffer, stream_open = True, stream_is_initialized = True,
           callback_active = False\<rparr>\<rparr>, Inr ())"
    by (simp add: initialize_def AudioStream_new_def music_buffer_new working_device_def
        SyncEngine_new_def Let_def)
  have w: "snd (writeAudioData (fst (initialize (SyncEngine_new 48000 2 20 0) working_device
             (\<lambda>u. 0))) [1, 2] 1 1000) = Inr 1"
    unfolding i
    by (simp add: writeAudioData_def writeAudio_def write_samples_def split_def Let_def
        write_count music_buffer_def)
  from not_initialized_behaviour[OF h, of working_device 20 "[1, 2]" 1 1000] h i w
  show ?thesis by simp
qed

text \<open>
  The claim as written fails for \<open>writeAudioData\<close>: on a new engine the call returns the
  value 0, not the not-initialized error.
\<close>

theorem not_initialized_counterexample:
  "writeAudioData (SyncEngine_new 48000 2 20 0) [1, 2] 1 1000 =
     (SyncEngine_new 48000 2 20 0, Inr 0) \<and>
   snd (writeAudioData (SyncEngine_new 48000 2 20 0) [1, 2] 1 1000) \<noteq> Inl NotInitialized"
  by (simp add: writeAudioData_def SyncEngine_new_def)

section \<open>Properties of the mesh worker\<close>

lemma processBatch_append:
  "processBatch net hs (xs @ ys) =
     (case processBatch net hs xs of
        Done net' hs' \<Rightarrow> processBatch net' hs' ys
      | Threw net' hs' msg \<Rightarrow> Threw net' hs' msg
      | Blocked net' hs' \<Rightarrow> Blocked net' hs')"
proof (induction xs arbitrary: net hs)
  case Nil
  show ?case by simp
next
  case (Cons x xs)
  obtain t p where x: "x = (t, p)" by (cases x)
  show ?case
    by (cases "processPacket net hs t p") (simp_all add: x Cons.IH)
qed

lemma processPacket_throw:
  assumes "applyPacket net t p = Some net'" and "packetHandler net' = Some h"
    and "h p hs = Inl msg"
  shows "processPacket net hs t p = Threw net' hs msg"
  using assms by (simp add: processPacket_def forward_def)

lemma processPacket_return:
  assumes "applyPacket net t p = Some net'" and "packetHandler net' = Some h"
    and "h p hs = Inr hs'"
  shows "processPacket net hs t p = Done net' hs'"
  using assms by (simp add: processPacket_def forward_def)

text \<open>
  Claim C7 (handler exceptions in the worker), as amended. Neither \<^verbatim>\<open>processPacket\<close> nor
  \<^verbatim>\<open>runNetworkLoop\<close> catches anything. If the packets \<open>pre\<close> of a batch are processed
  normally and the registered handler throws on the next packet \<open>p\<close>, the exception leaves
  \<^verbatim>\<open>processPacket\<close>, the loop over the batch and the worker's thread function: the
  packets \<open>rest\<close> that follow \<open>p\<close> in the batch and all later arrivals are never processed
  (the handler's state is the one it had before the throwing call), and the worker is
  terminated.
\<close>

theorem handler_exception_ends_worker:
  assumes "processBatch net hs pre = Done net1 hs1"
    and "applyPacket net1 t p = Some net2"
    and "packetHandler net2 = Some h"
    and "h p hs1 = Inl msg"
  shows "processPacket net1 hs1 t p = Threw net2 hs1 msg \<and>
         processBatch net hs (pre @ (t, p) # rest) = Threw net2 hs1 msg \<and>
         (running net0 \<and> net0\<lparr>packetQueue := []\<rparr> = net \<and>
          packetQueue net0 @ ps = pre @ (t, p) # rest \<longrightarrow>
            runNetworkLoop net0 hs (Arrived ps # later) = Terminated net2 hs1 msg)"
proof -
  have one: "processPacket net1 hs1 t p = Threw net2 hs1 msg"
    using assms(2,3,4) by (rule processPacket_throw)
  have batch: "processBatch net hs (pre @ (t, p) # rest) = Threw net2 hs1 msg"
    by (simp add: processBatch_append assms(1) one)
  have "runNetworkLoop net0 hs (Arrived ps # later) = Terminated net2 hs1 msg"
    if "running net0 \<and> net0\<lparr>packetQueue := []\<rparr> = net \<and>
        packetQueue net0 @ ps = pre @ (t, p) # rest"
    using that batch by (simp add: Let_def)
  with one batch show ?thesis by blast
qed

text \<open>
  The demonstration network receives a batch of three beacons, the second of which makes
  the handler throw, and later one more beacon. The first beacon is handled; the third
  beacon of the batch and the later one never are, and the worker is terminated.
\<close>

theorem handler_exception_ends_worker_witness:
  "processBatch (demo_network\<lparr>packetQueue := []\<rparr>) [] [(1, TimeBeacon 4)] =
     Done (demo_network\<lparr>packetQueue := []\<rparr>) [TimeBeacon 4] \<and>
   applyPacket (demo_network\<lparr>packetQueue := []\<rparr>) 2 (TimeBeacon 0) =
     Some (demo_network\<lparr>packetQueue := []\<rparr>) \<and>
   packetHandler (demo_network\<lparr>packetQueue := []\<rparr>) = Some logging_handler \<and>
   logging_handler (TimeBeacon 0) [TimeBeacon 4] = Inl ''bad beacon'' \<and>
   running demo_network \<and>
   runNetworkLoop demo_network []
     [Arrived [(1, TimeBeacon 4), (2, TimeBeacon 0), (3, TimeBeacon 5)],
      Arrived [(4, TimeBeacon 6)]] =
     Terminated (demo_network\<lparr>packetQueue := []\<rparr>) [TimeBeacon 4] ''bad beacon''"
proof -
  let ?net = "demo_network\<lparr>packetQueue := []\<rparr>"
  have h1: "processBatch ?net [] [(1, TimeBeacon 4)] = Done ?net [TimeBeacon 4]"
    by (simp add: processPacket_def applyPacket_def forward_def demo_network_def
        setPacketHandler_def logging_handler_def)
  have h2: "applyPacket ?net 2 (TimeBeacon 0) = Some ?net"
    by (simp add: applyPacket_def)
  have h3: "packetHandler ?net = Some logging_handler"
    by (simp add: demo_network_def setPacketHandler_def)
  have h4: "logging_handler (TimeBeacon 0) [TimeBeacon 4] = Inl ''bad beacon''"
    by (simp add: logging_handler_def)
  have r: "running demo_network" by (simp add: demo_network_def)
  have q: "packetQueue demo_network @ [(1, TimeBeacon 4), (2, TimeBeacon 0), (3, TimeBeacon 5)]
           = [(1, TimeBeacon 4)] @ (2, TimeBeacon 0) # [(3, TimeBeacon 5)]"
    by (simp add: demo_network_def setPacketHandler_def MeshNetwork_new_def)
  from handler_exception_ends_worker[OF h1 h2 h3 h4,
      of "[(3, TimeBeacon 5)]" demo_network
         "[(1, TimeBeacon 4), (2, TimeBeacon 0), (3, TimeBeacon 5)]" "[Arrived [(4, TimeBeacon 6)]]"]
    r q
  have "runNetworkLoop demo_network []
     [Arrived [(1, TimeBeacon 4), (2, TimeBeacon 0), (3, TimeBeacon 5)],
      Arrived [(4, TimeBeacon 6)]] = Terminated ?net [TimeBeacon 4] ''bad beacon''"
    by blast
  with h1 h2 h3 h4 r show ?thesis by blast
qed

text \<open>
  The claim as written fails. The handler throws on the first packet of a batch of two;
  the worker does not go on to the second packet: the handler never sees the beacon 5, and
  the loop ends terminated instead of waiting for more packets. Without the throwing
  packet the same loop handles the beacon 5 and keeps waiting.
\<close>

theorem fault_isolation_counterexample:
  "logging_handler (TimeBeacon 0) [] = Inl ''bad beacon'' \<and>
   processBatch (demo_network\<lparr>packetQueue := []\<rparr>) [] [(1, TimeBeacon 0), (2, TimeBeacon 5)] =
     Threw (demo_network\<lparr>packetQueue := []\<rparr>) [] ''bad beacon'' \<and>
   runNetworkLoop demo_network [] [Arrived [(1, TimeBeacon 0), (2, TimeBeacon 5)]] =
     Terminated (demo_network\<lparr>packetQueue := []\<rparr>) [] ''bad beacon'' \<and>
   runNetworkLoop demo_network [] [Arrived [(2, TimeBeacon 5)]] =
     Waiting (demo_network\<lparr>packetQueue := []\<rparr>) [TimeBeacon 5]"
  by (simp add: processPacket_def applyPacket_def forward_def demo_network_def
      setPacketHandler_def MeshNetwork_new_def logging_handler_def Let_def)

section \<open>Properties of the nonce generation\<close>

lemma upt8: "[0 ..< 8] = [0, 1, 2, 3, 4, 5, 6, 7 :: nat]"
  by (simp add: upt_rec)

lemma le_bytes64_explicit:
  "le_bytes64 w = [ucast w, ucast (drop_bit 8 w), ucast (drop_bit 16 w), ucast (drop_bit 24 w),
     ucast (drop_bit 32 w), ucast (drop_bit 40 w), ucast (drop_bit 48 w), ucast (drop_bit 56 w)]"
  by (simp add: le_bytes64_def upt8)

lemma length_le_bytes64: "length (le_bytes64 w) = 8"
  by (simp add: le_bytes64_def)

lemma byte_bit:
  fixes w :: "64 word"
  assumes "n < 64"
  shows "bit (push_bit k (ucast (ucast (drop_bit k w) :: 8 word) :: 64 word)) n
         \<longleftrightarrow> k \<le> n \<and> n < k + 8 \<and> bit w n"
proof (cases "k \<le> n")
  case True
  then have "k + (n - k) = n" by simp
  moreover have "n - k < 8 \<longleftrightarrow> n < k + 8" using True by arith
  moreover have "n - k < 64" using assms by arith
  ultimately show ?thesis using True assms by (simp add: bit_simps)
next
  case False
  then show ?thesis by (simp add: bit_simps)
qed

text \<open>Reading back the eight bytes of a word gives the word.\<close>

lemma le_word64_le_bytes64: "le_word64 (le_bytes64 w) = w"
proof (rule bit_word_eqI)
  fix n
  assume "n < LENGTH(64)"
  then have n: "n < 64" by simp
  have b0: "bit (ucast (ucast w :: 8 word) :: 64 word) n \<longleftrightarrow> n < 8 \<and> bit w n"
    using byte_bit[OF n, of 0 w] by simp
  have cover: "n < 8 \<or> (8 \<le> n \<and> n < 16) \<or> (16 \<le> n \<and> n < 24) \<or> (24 \<le> n \<and> n < 32) \<or>
     (32 \<le> n \<and> n < 40) \<or> (40 \<le> n \<and> n < 48) \<or> (48 \<le> n \<and> n < 56) \<or> (56 \<le> n \<and> n < 64)"
    using n by arith
  have val: "le_word64 (le_bytes64 w) =
      ucast (ucast w :: 8 word) OR
      push_bit 8 (ucast (ucast (drop_bit 8 w) :: 8 word)) OR
      push_bit 16 (ucast (ucast (drop_bit 16 w) :: 8 word)) OR
      push_bit 24 (ucast (ucast (drop_bit 24 w) :: 8 word)) OR
      push_bit 32 (ucast (ucast (drop_bit 32 w) :: 8 word)) OR
      push_bit 40 (ucast (ucast (drop_bit 40 w) :: 8 word)) OR
      push_bit 48 (ucast (ucast (drop_bit 48 w) :: 8 word)) OR
      push_bit 56 (ucast (ucast (drop_bit 56 w) :: 8 word))"
    by (simp add: le_word64_def le_bytes64_explicit)
  have "bit (le_word64 (le_bytes64 w)) n \<longleftrightarrow>
        (n < 8 \<and> bit w n) \<or> (8 \<le> n \<and> n < 8 + 8 \<and> bit w n) \<or>
        (16 \<le> n \<and> n < 16 + 8 \<and> bit w n) \<or> (24 \<le> n \<and> n < 24 + 8 \<and> bit w n) \<or>
        (32 \<le> n \<and> n < 32 + 8 \<and> bit w n) \<or> (40 \<le> n \<and> n < 40 + 8 \<and> bit w n) \<or>
        (48 \<le> n \<and> n < 48 + 8 \<and> bit w n) \<or> (56 \<le> n \<and> n < 56 + 8 \<and> bit w n)"
    unfolding val by (simp only: bit_or_iff b0 byte_bit[OF n])
  also have "\<dots> \<longleftrightarrow> bit w n" using cover by auto
  finally show "bit (le_word64 (le_bytes64 w)) n \<longleftrightarrow> bit w n" .
qed

lemma le_bytes64_inject: "le_bytes64 a = le_bytes64 b \<longleftrightarrow> a = b"
proof
  assume "le_bytes64 a = le_bytes64 b"
  then have "le_word64 (le_bytes64 a) = le_word64 (le_bytes64 b)" by simp
  then show "a = b" by (simp only: le_word64_le_bytes64)
qed simp

lemma byte_eq_iff:
  fixes a b :: "64 word"
  shows "(ucast (drop_bit k a) :: 8 word) = ucast (drop_bit k b)
         \<longleftrightarrow> (\<forall>j<8. bit a (k + j) = bit b (k + j))"
  by (auto simp add: bit_eq_iff bit_simps)

lemma split32:
  "(\<forall>n<32. P n) \<longleftrightarrow>
   (\<forall>j<8. P (0 + j)) \<and> (\<forall>j<8. P (8 + j)) \<and> (\<forall>j<8. P (16 + j)) \<and> (\<forall>j<8. P (24 + j :: nat))"
proof
  assume r: "(\<forall>j<8. P (0 + j)) \<and> (\<forall>j<8. P (8 + j)) \<and> (\<forall>j<8. P (16 + j)) \<and> (\<forall>j<8. P (24 + j))"
  show "\<forall>n<32. P n"
  proof (intro allI impI)
    fix n :: nat
    assume n: "n < 32"
    consider "n < 8" | "8 \<le> n \<and> n < 16" | "16 \<le> n \<and> n < 24" | "24 \<le> n \<and> n < 32"
      using n by arith
    then show "P n"
    proof cases
      case 1
      then have "P (0 + n)" using r by blast
      then show ?thesis by simp
    next
      case 2
      then have "n - 8 < 8" by arith
      then have "P (8 + (n - 8))" using r by blast
      then show ?thesis using 2 by simp
    next
      case 3
      then have "n - 16 < 8" by arith
      then have "P (16 + (n - 16))" using r by blast
      then show ?thesis using 3 by simp
    next
      case 4
      then have "n - 24 < 8" by arith
      then have "P (24 + (n - 24))" using r by blast
      then show ?thesis using 4 by simp
    qed
  qed
qed simp

lemma take_bit32_eq_iff:
  fixes a b :: "64 word"
  shows "take_bit 32 a = take_bit 32 b \<longleftrightarrow> (\<forall>n<32. bit a n = bit b n)"
proof
  assume e: "take_bit 32 a = take_bit 32 b"
  show "\<forall>n<32. bit a n = bit b n"
  proof (intro allI impI)
    fix n :: nat
    assume n: "n < 32"
    have "bit (take_bit 32 a) n = bit (take_bit 32 b) n" by (simp only: e)
    then show "bit a n = bit b n" using n by (simp add: bit_take_bit_iff)
  qed
next
  assume r: "\<forall>n<32. bit a n = bit b n"
  show "take_bit 32 a = take_bit 32 b"
    by (rule bit_word_eqI) (use r in \<open>auto simp add: bit_take_bit_iff\<close>)
qed

text \<open>The four counter bytes of a nonce are the low 32 bits of the counter.\<close>

lemma counter_bytes_eq_iff:
  "take 4 (le_bytes64 a) = take 4 (le_bytes64 b) \<longleftrightarrow> take_bit 32 a = take_bit 32 b"
proof -
  have "take 4 (le_bytes64 a) = take 4 (le_bytes64 b) \<longleftrightarrow>
        (ucast (drop_bit 0 a) :: 8 word) = ucast (drop_bit 0 b) \<and>
        (ucast (drop_bit 8 a) :: 8 word) = ucast (drop_bit 8 b) \<and>
        (ucast (drop_bit 16 a) :: 8 word) = ucast (drop_bit 16 b) \<and>
        (ucast (drop_bit 24 a) :: 8 word) = ucast (drop_bit 24 b)"
    by (simp add: le_bytes64_explicit)
  also have "\<dots> \<longleftrightarrow> (\<forall>n<32. bit a n = bit b n)"
    unfolding byte_eq_iff by (rule split32[symmetric])
  finally show ?thesis by (simp only: take_bit32_eq_iff)
qed

lemma take_bit32_counter:
  fixes c :: "64 word"
  shows "unat (take_bit 32 (c + of_nat m)) = (unat c + m) mod 2 ^ 32"
proof -
  have "unat (take_bit 32 (c + of_nat m)) = take_bit 32 (unat (c + of_nat m))"
    by (rule unsigned_take_bit_eq)
  also have "\<dots> = unat (c + of_nat m) mod 2 ^ 32"
    by (rule take_bit_eq_mod)
  also have "unat (c + of_nat m) = (unat c + m) mod 2 ^ 64"
    by (simp add: unat_word_ariths unat_of_nat mod_add_right_eq)
  also have "(unat c + m) mod 2 ^ 64 mod 2 ^ 32 = (unat c + m) mod 2 ^ 32"
    by (rule mod_mod_cancel) simp
  finally show ?thesis .
qed

text \<open>
  Two counter values \<open>i \<le> j\<close> steps after the same start have the same low 32 bits
  exactly when their distance is a multiple of \<open>2 ^ 32\<close>.
\<close>

lemma counter_collision_iff:
  fixes c :: "64 word"
  assumes "i \<le> j"
  shows "take_bit 32 (c + of_nat i) = take_bit 32 (c + of_nat j) \<longleftrightarrow> 2 ^ 32 dvd (j - i)"
proof -
  have "take_bit 32 (c + of_nat i) = take_bit 32 (c + of_nat j) \<longleftrightarrow>
        unat (take_bit 32 (c + of_nat j)) = unat (take_bit 32 (c + of_nat i))"
    by (auto simp only: word_unat_eq_iff)
  also have "\<dots> \<longleftrightarrow> (unat c + j) mod 2 ^ 32 = (unat c + i) mod 2 ^ 32"
    by (simp only: take_bit32_counter)
  also have "\<dots> \<longleftrightarrow> 2 ^ 32 dvd ((unat c + j) - (unat c + i))"
    using assms by (intro mod_eq_dvd_iff_nat) simp
  also have "(unat c + j) - (unat c + i) = j - i" by simp
  finally show ?thesis .
qed

lemma length_generateNonces: "length (generateNonces c tss) = length tss"
  by (induction tss arbitrary: c) (simp_all add: generateNonce_def Let_def)

text \<open>The nonce of the call number \<open>i\<close> (from 0) of a sequence of calls.\<close>

lemma generateNonces_nth:
  "i < length tss \<Longrightarrow>
   generateNonces c tss ! i =
     le_bytes64 (tss ! i) @ take 4 (le_bytes64 (nonceCounter c + of_nat (i + 1)))"
proof (induction tss arbitrary: c i)
  case Nil
  then show ?case by simp
next
  case (Cons t tss)
  show ?case
  proof (cases i)
    case 0
    then show ?thesis by (simp add: generateNonce_def Let_def)
  next
    case (Suc k)
    then have k: "k < length tss" using Cons.prems by simp
    have "generateNonces c (t # tss) ! i =
          generateNonces (c\<lparr>nonceCounter := nonceCounter c + 1\<rparr>) tss ! k"
      using Suc by (simp add: generateNonce_def Let_def)
    also have "\<dots> = le_bytes64 (tss ! k) @
          take 4 (le_bytes64 (nonceCounter (c\<lparr>nonceCounter := nonceCounter c + 1\<rparr>) + of_nat (k + 1)))"
      by (rule Cons.IH[OF k])
    also have "nonceCounter (c\<lparr>nonceCounter := nonceCounter c + 1\<rparr>) + of_nat (k + 1) =
               nonceCounter c + of_nat (i + 1)"
      using Suc by simp
    also have "tss ! k = (t # tss) ! i" using Suc by simp
    finally show ?thesis .
  qed
qed

text \<open>
  When two calls of one instance return the same nonce: the clock readings are equal and
  the number of calls between them is a multiple of \<open>2 ^ 32\<close>.
\<close>

lemma nonce_collision_iff:
  assumes "i \<le> j" and "j < length tss"
  shows "generateNonces c tss ! i = generateNonces c tss ! j
         \<longleftrightarrow> tss ! i = tss ! j \<and> 2 ^ 32 dvd (j - i)"
proof -
  have i: "i < length tss" using assms by simp
  have "Suc i \<le> Suc j" using assms by simp
  then have cc: "take_bit 32 (nonceCounter c + of_nat (Suc i)) =
                 take_bit 32 (nonceCounter c + of_nat (Suc j)) \<longleftrightarrow> 2 ^ 32 dvd (Suc j - Suc i)"
    by (rule counter_collision_iff)
  have ni: "generateNonces c tss ! i =
        le_bytes64 (tss ! i) @ take 4 (le_bytes64 (nonceCounter c + of_nat (Suc i)))"
    using generateNonces_nth[OF i, of c] by (simp only: Suc_eq_plus1)
  have nj: "generateNonces c tss ! j =
        le_bytes64 (tss ! j) @ take 4 (le_bytes64 (nonceCounter c + of_nat (Suc j)))"
    using generateNonces_nth[OF assms(2), of c] by (simp only: Suc_eq_plus1)
  have "generateNonces c tss ! i = generateNonces c tss ! j \<longleftrightarrow>
        le_bytes64 (tss ! i) = le_bytes64 (tss ! j) \<and>
        take 4 (le_bytes64 (nonceCounter c + of_nat (Suc i))) =
        take 4 (le_bytes64 (nonceCounter c + of_nat (Suc j)))"
    unfolding ni nj by (rule append_eq_append_conv) (simp add: length_le_bytes64)
  also have "\<dots> \<longleftrightarrow> tss ! i = tss ! j \<and> 2 ^ 32 dvd (j - i)"
    using cc by (simp only: le_bytes64_inject counter_bytes_eq_iff diff_Suc_Suc)
  finally show ?thesis .
qed

text \<open>
  Claim C9 (nonce uniqueness under identical timestamps), as amended. \<^verbatim>\<open>generateNonce\<close> increments the
  64-bit counter before use and returns 12 bytes: the 8 bytes of the clock reading and the
  low 4 bytes of the incremented counter. For two calls \<open>i < j\<close> of one instance (numbered
  in call order, \<open>tss\<close> the clock readings of the calls), the nonces are equal exactly when
  the clock readings are equal and \<open>j - i\<close> is a multiple of \<open>2 ^ 32\<close>. Hence two distinct
  calls made at the same millisecond return different nonces provided they are fewer than
  \<open>2 ^ 32\<close> calls apart; without that bound they need not.
\<close>

theorem nonce_uniqueness:
  "nonceCounter (fst (generateNonce c t)) = nonceCounter c + 1 \<and>
   snd (generateNonce c t) = le_bytes64 t @ take 4 (le_bytes64 (nonceCounter c + 1)) \<and>
   length (snd (generateNonce c t)) = 12 \<and>
   le_word64 (take 8 (snd (generateNonce c t))) = t \<and>
   (i < j \<and> j < length tss \<longrightarrow>
      (generateNonces c tss ! i = generateNonces c tss ! j
         \<longleftrightarrow> tss ! i = tss ! j \<and> 2 ^ 32 dvd (j - i)) \<and>
      (tss ! i = tss ! j \<and> j - i < 2 ^ 32
         \<longrightarrow> generateNonces c tss ! i \<noteq> generateNonces c tss ! j))"
proof (intro conjI impI)
  show "nonceCounter (fst (generateNonce c t)) = nonceCounter c + 1"
    by (simp add: generateNonce_def Let_def)
  show n: "snd (generateNonce c t) = le_bytes64 t @ take 4 (le_bytes64 (nonceCounter c + 1))"
    by (simp add: generateNonce_def Let_def)
  show "length (snd (generateNonce c t)) = 12"
    unfolding n by (simp add: length_le_bytes64)
  have "take 8 (snd (generateNonce c t)) = le_bytes64 t"
    unfolding n by (simp add: length_le_bytes64)
  then show "le_word64 (take 8 (snd (generateNonce c t))) = t"
    by (simp only: le_word64_le_bytes64)
next
  assume a: "i < j \<and> j < length tss"
  then have ij: "i \<le> j" and j: "j < length tss" by simp_all
  show iff: "generateNonces c tss ! i = generateNonces c tss ! j
         \<longleftrightarrow> tss ! i = tss ! j \<and> 2 ^ 32 dvd (j - i)"
    using ij j by (rule nonce_collision_iff)
  assume b: "tss ! i = tss ! j \<and> j - i < 2 ^ 32"
  have "0 < j - i" using a by simp
  then have "\<not> (2 :: nat) ^ 32 dvd (j - i)"
    using b by (meson nat_dvd_not_less)
  then show "generateNonces c tss ! i \<noteq> generateNonces c tss ! j"
    by (simp only: iff) simp
qed

text \<open>
  Two successive calls of a fresh instance at the clock reading 5: the counter bytes are
  1 and 2.
\<close>

theorem nonce_uniqueness_witness:
  "generateNonces toy_crypto [5, 5] =
     [[5, 0, 0, 0, 0, 0, 0, 0, 1, 0, 0, 0], [5, 0, 0, 0, 0, 0, 0, 0, 2, 0, 0, 0]] \<and>
   (0 :: nat) < 1 \<and> (1 :: nat) < length [5, 5 :: 64 word] \<and>
   [5, 5 :: 64 word] ! 0 = [5, 5] ! 1 \<and> (1 :: nat) - 0 < 2 ^ 32 \<and>
   generateNonces toy_crypto [5, 5] ! 0 \<noteq> generateNonces toy_crypto [5, 5] ! 1"
  using nonce_uniqueness [of toy_crypto 5 0 1 "[5, 5]"]
  by (simp add: generateNonce_def toy_crypto_def le_bytes64_explicit)

text \<open>
  The claim as stated fails for calls \<open>2 ^ 32\<close> apart: of \<open>2 ^ 32 + 1\<close> calls of a fresh
  instance, all at the clock reading 7, the first and the last return the same nonce. The
  counter values are 1 and \<open>2 ^ 32 + 1\<close>, whose low 4 bytes are both 1, 0, 0, 0.
\<close>

theorem nonce_collision_counterexample:
  "replicate 4294967297 (7 :: 64 word) ! 0 = replicate 4294967297 7 ! 4294967296 \<and>
   generateNonces toy_crypto (replicate 4294967297 7) ! 0 =
     [7, 0, 0, 0, 0, 0, 0, 0, 1, 0, 0, 0] \<and>
   generateNonces toy_crypto (replicate 4294967297 7) ! 4294967296 =
     [7, 0, 0, 0, 0, 0, 0, 0, 1, 0, 0, 0]"
proof -
  have l0: "0 < length (replicate 4294967297 (7 :: 64 word))"
    by simp
  have l1: "4294967296 < length (replicate 4294967297 (7 :: 64 word))"
    by simp
  have t0: "replicate 4294967297 (7 :: 64 word) ! 0 = 7"
    by (rule nth_replicate) simp
  have t1: "replicate 4294967297 (7 :: 64 word) ! 4294967296 = 7"
    by (rule nth_replicate) simp
  have c: "nonceCounter toy_crypto = 0" by (simp add: toy_crypto_def)
  have "generateNonces toy_crypto (replicate 4294967297 7) ! 0 =
        le_bytes64 7 @ take 4 (le_bytes64 (0 + of_nat (0 + 1)))"
    using generateNonces_nth[OF l0, of toy_crypto] by (simp only: t0 c)
  then have n0: "generateNonces toy_crypto (replicate 4294967297 7) ! 0 =
        [7, 0, 0, 0, 0, 0, 0, 0, 1, 0, 0, 0]"
    by (simp add: le_bytes64_explicit)
  have "generateNonces toy_crypto (replicate 4294967297 7) ! 4294967296 =
        le_bytes64 7 @ take 4 (le_bytes64 (0 + of_nat (4294967296 + 1)))"
    using generateNonces_nth[OF l1, of toy_crypto] by (simp only: t1 c)
  then have n1: "generateNonces toy_crypto (replicate 4294967297 7) ! 4294967296 =
        [7, 0, 0, 0, 0, 0, 0, 0, 1, 0, 0, 0]"
    by (simp add: le_bytes64_explicit)
  show ?thesis using n0 n1 by (simp only: t0 t1)
qed

section \<open>Properties of the security tokens\<close>

lemma length_generateNonce: "length (snd (generateNonce c t)) = 12"
  by (simp add: generateNonce_def Let_def length_le_bytes64)

lemma networkKey_generateNonce: "networkKey (fst (generateNonce c t)) = networkKey c"
  by (simp add: generateNonce_def Let_def)

text \<open>The three parts of an encrypted message are found again by \<^verbatim>\<open>decrypt\<close>.\<close>

lemma split_envelope:
  assumes "length nonce = 12" and "length tag = 16"
  shows "\<not> length (nonce @ ciphertext @ tag) < 12 + 16"
    and "take 12 (nonce @ ciphertext @ tag) = nonce"
    and "drop (length (nonce @ ciphertext @ tag) - 16) (nonce @ ciphertext @ tag) = tag"
    and "take (length (nonce @ ciphertext @ tag) - 16 - 12) (drop 12 (nonce @ ciphertext @ tag))
         = ciphertext"
  using assms by simp_all

text \<open>
  With a correct cipher, what one instance encrypts, an instance with the same network key
  decrypts.
\<close>

lemma decrypt_encrypt:
  assumes P: "aead_correct P"
    and key: "networkKey v = networkKey c"
    and enc: "encrypt P c nonce_time payload = (c1, Inr token)"
  shows "decrypt P v token = Inr payload"
proof -
  obtain c2 nonce where g: "generateNonce c nonce_time = (c2, nonce)"
    by (cases "generateNonce c nonce_time")
  have ln: "length nonce = 12" using length_generateNonce[of c nonce_time] g by simp
  have k2: "networkKey c2 = networkKey c" using networkKey_generateNonce[of c nonce_time] g by simp
  from enc g obtain ciphertext tag
    where ae: "aead_encrypt P (networkKey c2) nonce payload = Some (ciphertext, tag)"
      and tok: "token = nonce @ ciphertext @ tag"
    by (auto simp add: encrypt_def split: option.splits)
  from P ae have lt: "length tag = 16"
    and ad: "aead_decrypt P (networkKey c2) nonce ciphertext tag = Some payload"
    unfolding aead_correct_def by blast+
  show ?thesis
    unfolding decrypt_def tok Let_def
    by (simp only: split_envelope[OF ln lt] if_False key k2[symmetric] ad option.case)
qed

text \<open>What \<^verbatim>\<open>verifySecurityToken\<close> does with a payload of the token format.\<close>

lemma split_token:
  assumes "length sg = 64"
  shows "\<not> length (nodeId @ le_bytes64 t @ le_bytes64 e @ sg) < 8 + 8 + 64"
    and "drop (length (nodeId @ le_bytes64 t @ le_bytes64 e @ sg) - 64)
           (nodeId @ le_bytes64 t @ le_bytes64 e @ sg) = sg"
    and "take (length (nodeId @ le_bytes64 t @ le_bytes64 e @ sg) - 64)
           (nodeId @ le_bytes64 t @ le_bytes64 e @ sg) = nodeId @ le_bytes64 t @ le_bytes64 e"
    and "length (nodeId @ le_bytes64 t @ le_bytes64 e) - 16 = length nodeId"
    and "take (length nodeId) (nodeId @ le_bytes64 t @ le_bytes64 e) = nodeId"
    and "take 8 (drop (length nodeId + 8) (nodeId @ le_bytes64 t @ le_bytes64 e)) = le_bytes64 e"
  using assms by (simp_all add: length_le_bytes64)

lemma verifySecurityToken_payload:
  assumes d: "decrypt P v token = Inr (nodeId @ le_bytes64 t @ le_bytes64 e @ sg)"
    and sg: "length sg = 64"
  shows "verifySecurityToken P v current token =
     (if current > e then Inl (CryptoError Verification)
      else case verify P v nodeId (nodeId @ le_bytes64 t @ le_bytes64 e) sg of
             Inl er \<Rightarrow> Inl er
           | Inr ok \<Rightarrow> if \<not> ok then Inl (CryptoError Verification) else Inr (nodeId, e))"
  unfolding verifySecurityToken_def d Let_def
  by (simp only: sum.case split_token[OF sg] if_False le_word64_le_bytes64)

text \<open>
  The expiry check, for any token: the field read as the expiry is made of the 8 bytes
  before the signature.
\<close>

lemma verifySecurityToken_expired:
  assumes d: "decrypt P v token = Inr decrypted"
    and l: "80 \<le> length decrypted"
    and x: "le_word64 (take 8 (drop (length decrypted - 72) decrypted)) < current"
  shows "verifySecurityToken P v current token = Inl (CryptoError Verification)"
proof -
  have n: "length (take (length decrypted - 64) decrypted) - 16 + 8 = length decrypted - 72"
    using l by simp
  have "take 8 (drop (length decrypted - 72) (take (length decrypted - 64) decrypted)) =
        take 8 (drop (length decrypted - 72) decrypted)"
    using l by (simp add: drop_take min_def)
  then show ?thesis
    using x l unfolding verifySecurityToken_def d Let_def n by simp
qed

lemma verifySecurityToken_accepts:
  assumes "verifySecurityToken P v current token = Inr (nodeId, e)"
  shows "current \<le> e"
  using assms unfolding verifySecurityToken_def Let_def
  by (auto split: sum.splits if_splits)

lemma verifySecurityToken_errors:
  assumes "verifySecurityToken P v current token = Inl er"
  shows "er = CryptoError Decryption \<or> er = CryptoError Verification"
  using assms unfolding verifySecurityToken_def Let_def decrypt_def verify_def
  by (auto split: sum.splits if_splits option.splits)

text \<open>A generated token, verified by an instance that shares the network key and knows the
  public key of the signer under the node id of the token.\<close>

lemma verify_generated:
  assumes P: "aead_correct P"
    and S: "signature_correct P (signing_secretKey c) pk"
    and key: "networkKey v = networkKey c"
    and known: "knownPublicKeys v nodeId = Some pk"
    and pk: "length pk = 32"
    and gen: "generateSecurityToken P c issued nonce_time nodeId ttlSeconds = (c1, Inr token)"
  shows "verifySecurityToken P v current token =
     (if current > issued + ttlSeconds * 1000 then Inl (CryptoError Verification)
      else Inr (nodeId, issued + ttlSeconds * 1000))"
proof -
  define e where "e = issued + ttlSeconds * 1000"
  define tokenData where "tokenData = nodeId @ le_bytes64 issued @ le_bytes64 e"
  from gen obtain sg
    where s: "sign_detached P (signing_secretKey c) tokenData = Some sg"
      and enc: "encrypt P c nonce_time (tokenData @ sg) = (c1, Inr token)"
    unfolding generateSecurityToken_def sign_def Let_def tokenData_def e_def
    by (auto split: option.splits sum.splits)
  from S s have lsg: "length sg = 64" and ok: "sign_verify_detached P sg tokenData pk"
    unfolding signature_correct_def by blast+
  have "decrypt P v token = Inr (tokenData @ sg)"
    using P key enc by (rule decrypt_encrypt)
  then have d: "decrypt P v token = Inr (nodeId @ le_bytes64 issued @ le_bytes64 e @ sg)"
    by (simp add: tokenData_def)
  have vf: "verify P v nodeId (nodeId @ le_bytes64 issued @ le_bytes64 e) sg = Inr True"
    using ok known pk lsg by (simp add: verify_def tokenData_def)
  show ?thesis
    unfolding verifySecurityToken_payload[OF d lsg] vf e_def[symmetric] by simp
qed

lemma aead_correct_toy: "aead_correct toy_primitives"
  by (simp add: aead_correct_def toy_primitives_def toy_tag_def min_def)

lemma signature_correct_toy: "signature_correct toy_primitives sk sk"
  by (simp add: signature_correct_def toy_primitives_def toy_signature_def min_def)

lemma demo_generate:
  "generateSecurityToken toy_primitives toy_crypto 1000 1000 [1] 1 =
     (toy_crypto\<lparr>nonceCounter := 1\<rparr>, Inr demo_token)"
  by (simp add: generateSecurityToken_def sign_def encrypt_def generateNonce_def
      toy_primitives_def toy_crypto_def toy_signature_def toy_tag_def
      demo_token_def demo_payload_def le_bytes64_explicit Let_def)

lemma demo_decrypt: "decrypt toy_primitives toy_crypto demo_token = Inr demo_payload"
  by (simp add: decrypt_def toy_primitives_def toy_crypto_def toy_tag_def
      demo_token_def demo_payload_def Let_def)

lemma length_demo_payload: "length demo_payload = 81"
  by (simp add: demo_payload_def)

lemma demo_expiry: "le_word64 (take 8 (drop 9 demo_payload)) = 2000"
  by (simp add: demo_payload_def le_word64_def)

lemma toy_crypto_fields:
  "signing_secretKey toy_crypto = replicate 32 5"
  "knownPublicKeys toy_crypto [1] = Some (replicate 32 5)"
  by (simp_all add: toy_crypto_def)

text \<open>
  Claim C6 (security-token expiry), as amended. \<^verbatim>\<open>verifySecurityToken\<close> rejects a token when the
  clock reading is greater than the expiry, so a token is still accepted in the millisecond
  of its expiry; a token that does not decrypt is rejected with a Decryption error.

  \<^item> For every token that decrypts to a payload of at least 80 bytes, the expiry is the 8
    bytes before the 64-byte signature; if the clock reading is greater than it, the
    result is a Verification error.
  \<^item> Whenever a token is accepted, the clock reading is at most the returned expiry.
  \<^item> Every error of \<^verbatim>\<open>verifySecurityToken\<close> is a Decryption or a Verification error.
  \<^item> A token generated for \<open>nodeId\<close> with \<open>ttlSeconds\<close> at the clock reading \<open>issued\<close>, verified
    by an instance with the same network key that knows the signer's public key under
    \<open>nodeId\<close> (the libraries being correct), is accepted with the pair of \<open>nodeId\<close> and
    \<open>issued + ttlSeconds * 1000\<close> (in 64-bit arithmetic) at every clock reading up to and
    including that expiry, and rejected with a Verification error after it.
\<close>

theorem token_expiry:
  "(decrypt P v token = Inr decrypted \<and> 80 \<le> length decrypted \<and>
      le_word64 (take 8 (drop (length decrypted - 72) decrypted)) < late
      \<longrightarrow> verifySecurityToken P v late token = Inl (CryptoError Verification)) \<and>
   (verifySecurityToken P v current token = Inr (n, x) \<longrightarrow> current \<le> x) \<and>
   (verifySecurityToken P v late token = Inl er
      \<longrightarrow> er = CryptoError Decryption \<or> er = CryptoError Verification) \<and>
   (aead_correct P \<and> signature_correct P (signing_secretKey c) pk \<and>
    networkKey v = networkKey c \<and> knownPublicKeys v nodeId = Some pk \<and> length pk = 32 \<and>
    generateSecurityToken P c issued nonce_time nodeId ttlSeconds = (c1, Inr tok)
      \<longrightarrow> (current \<le> issued + ttlSeconds * 1000
             \<longrightarrow> verifySecurityToken P v current tok = Inr (nodeId, issued + ttlSeconds * 1000)) \<and>
          (issued + ttlSeconds * 1000 < late
             \<longrightarrow> verifySecurityToken P v late tok = Inl (CryptoError Verification)))"
proof (intro conjI impI)
  assume "decrypt P v token = Inr decrypted \<and> 80 \<le> length decrypted \<and>
      le_word64 (take 8 (drop (length decrypted - 72) decrypted)) < late"
  then show "verifySecurityToken P v late token = Inl (CryptoError Verification)"
    using verifySecurityToken_expired[of P v token decrypted late] by blast
next
  assume "verifySecurityToken P v current token = Inr (n, x)"
  then show "current \<le> x" by (rule verifySecurityToken_accepts)
next
  assume "verifySecurityToken P v late token = Inl er"
  then show "er = CryptoError Decryption \<or> er = CryptoError Verification"
    by (rule verifySecurityToken_errors)
next
  assume a: "aead_correct P \<and> signature_correct P (signing_secretKey c) pk \<and>
    networkKey v = networkKey c \<and> knownPublicKeys v nodeId = Some pk \<and> length pk = 32 \<and>
    generateSecurityToken P c issued nonce_time nodeId ttlSeconds = (c1, Inr tok)"
  then have r: "verifySecurityToken P v t tok =
     (if t > issued + ttlSeconds * 1000 then Inl (CryptoError Verification)
      else Inr (nodeId, issued + ttlSeconds * 1000))" for t
    using verify_generated[of P c pk v nodeId issued nonce_time ttlSeconds c1 tok t]
    by blast
  {
    assume "current \<le> issued + ttlSeconds * 1000"
    then show "verifySecurityToken P v current tok = Inr (nodeId, issued + ttlSeconds * 1000)"
      unfolding r by (simp add: not_less)
  }
  {
    assume "issued + ttlSeconds * 1000 < late"
    then show "verifySecurityToken P v late tok = Inl (CryptoError Verification)"
      unfolding r by simp
  }
qed

text \<open>
  The token of \<open>toy_crypto\<close> for node id 1 (issued at 1000, expiry 2000) is accepted at
  the clock reading 1500 and rejected at 2001.
\<close>

theorem token_expiry_witness:
  "generateSecurityToken toy_primitives toy_crypto 1000 1000 [1] 1 =
     (toy_crypto\<lparr>nonceCounter := 1\<rparr>, Inr demo_token) \<and>
   decrypt toy_primitives toy_crypto demo_token = Inr demo_payload \<and>
   80 \<le> length demo_payload \<and>
   le_word64 (take 8 (drop (length demo_payload - 72) demo_payload)) < 2001 \<and>
   (1500 :: 64 word) \<le> 1000 + 1 * 1000 \<and> (1000 + 1 * 1000 :: 64 word) < 2001 \<and>
   verifySecurityToken toy_primitives toy_crypto 1500 demo_token = Inr ([1], 2000) \<and>
   verifySecurityToken toy_primitives toy_crypto 2001 demo_token =
     Inl (CryptoError Verification)"
  using token_expiry [where P = toy_primitives and v = toy_crypto and token = demo_token
      and decrypted = demo_payload and late = 2001 and current = 1500 and n = "[1]"
      and x = 2000 and er = "CryptoError Verification" and c = toy_crypto
      and pk = "replicate 32 5" and nodeId = "[1]" and issued = 1000 and nonce_time = 1000
      and ttlSeconds = 1 and ?c1.0 = "toy_crypto\<lparr>nonceCounter := 1\<rparr>" and tok = demo_token]
  by (simp add: demo_generate demo_decrypt length_demo_payload demo_expiry aead_correct_toy
      signature_correct_toy toy_crypto_fields)

text \<open>
  The claim as stated fails at the boundary: at the clock reading 2000, which is not
  strictly less than the expiry 2000, the same token is accepted.
\<close>

theorem token_expiry_counterexample:
  "generateSecurityToken toy_primitives toy_crypto 1000 1000 [1] 1 =
     (toy_crypto\<lparr>nonceCounter := 1\<rparr>, Inr demo_token) \<and>
   \<not> (2000 :: 64 word) < 1000 + 1 * 1000 \<and>
   verifySecurityToken toy_primitives toy_crypto 2000 demo_token = Inr ([1], 2000)"
proof -
  have "verifySecurityToken toy_primitives toy_crypto 2000 demo_token = Inr ([1], 2000)"
    unfolding verifySecurityToken_def demo_decrypt
    by (simp add: demo_payload_def le_word64_def verify_def toy_crypto_def
        toy_primitives_def toy_signature_def Let_def)
  then show ?thesis using demo_generate by simp
qed

end
